theory Spec2Isabelle
  imports Main "HOL-Library.Sublist"
begin

section \<open>Paths\<close>

text \<open>
  A \<open>pathlib.Path\<close> is kept as the list of its \<open>parts\<close>: \<open>Path('a/b.zip')\<close> is
  \<open>[''a'', ''b.zip'']\<close>, \<open>Path('/a')\<close> is \<open>[''/'', ''a'']\<close> and \<open>Path('.')\<close> is \<open>[]\<close>
  (POSIX flavour). \<open>name\<close>, \<open>parent\<close>, \<open>stem\<close> (the name up to its last dot, when
  that dot is neither the first nor the last character) and \<open>/\<close> are those of
  \<open>pathlib\<close>. Strings are lists of bytes; \<open>str.lower\<close> is modelled on the ASCII
  letters: no other character lowers to a letter of a recognised suffix that stands right
  before the next letter of the suffix.
\<close>

type_synonym path = "string list"

fun split_slash :: "string \<Rightarrow> string list" where
  "split_slash [] = [[]]"
| "split_slash (c # cs) =
     (if c = CHR ''/'' then [] # split_slash cs
      else (case split_slash cs of [] \<Rightarrow> [[c]] | w # ws \<Rightarrow> (c # w) # ws))"

definition Path :: "string \<Rightarrow> path" where
  "Path s =
     (let parts = filter (\<lambda>w. w \<noteq> [] \<and> w \<noteq> ''.'') (split_slash s)
      in if s \<noteq> [] \<and> hd s = CHR ''/'' then ''/'' # parts else parts)"

fun join_sep :: "string \<Rightarrow> string list \<Rightarrow> string" where
  "join_sep sep [] = []"
| "join_sep sep [x] = x"
| "join_sep sep (x # y # ys) = x @ sep @ join_sep sep (y # ys)"

definition str_of :: "path \<Rightarrow> string" where
  "str_of p =
     (if p = [] then ''.''
      else if hd p = ''/'' then ''/'' @ join_sep ''/'' (tl p)
      else join_sep ''/'' p)"

definition path_name :: "path \<Rightarrow> string" where
  "path_name p = (if p = [] \<or> p = [''/''] then [] else last p)"

definition parent :: "path \<Rightarrow> path" where
  "parent p = (if p = [''/''] then p else butlast p)"

definition joinpath :: "path \<Rightarrow> string \<Rightarrow> path" where
  "joinpath p s = (if s \<noteq> [] \<and> hd s = CHR ''/'' then Path s else p @ Path s)"

fun rfind :: "char \<Rightarrow> string \<Rightarrow> int" where
  "rfind c [] = - 1"
| "rfind c (x # xs) =
     (let i = rfind c xs in if 0 \<le> i then i + 1 else if x = c then 0 else - 1)"

definition stem :: "path \<Rightarrow> string" where
  "stem p =
     (let name = path_name p; i = rfind (CHR ''.'') name
      in if 0 < i \<and> i < int (length name) - 1 then take (nat i) name else name)"

definition lower_char :: "char \<Rightarrow> char" where
  "lower_char c =
     (case map_of (zip ''ABCDEFGHIJKLMNOPQRSTUVWXYZ'' ''abcdefghijklmnopqrstuvwxyz'') c of
        Some d \<Rightarrow> d
      | None \<Rightarrow> c)"

definition lower :: "string \<Rightarrow> string" where
  "lower s = map lower_char s"

definition endswith :: "string \<Rightarrow> string \<Rightarrow> bool" where
  "endswith s ext = suffix ext s"

section \<open>Archive classifier\<close>

definition archive_extensions :: "string list" where
  "archive_extensions =
     [''.zip'', ''.rar'', ''.7z'', ''.tar'', ''.gz'', ''.bz2'', ''.tgz'', ''.tar.gz'', ''.tar.bz2'']"

definition is_archive :: "path \<Rightarrow> bool" where
  "is_archive file_path =
     (let file_path_str = lower (str_of file_path)
      in list_ex (\<lambda>ext. endswith file_path_str ext) archive_extensions)"

datatype extract_method = Extract_zip | Extract_rar | Extract_7z | Extract_tar

definition get_extract_method :: "path \<Rightarrow> extract_method" where
  "get_extract_method file_path =
     (let file_path_str = lower (str_of file_path)
      in if endswith file_path_str ''.zip'' then Extract_zip
         else if endswith file_path_str ''.rar'' then Extract_rar
         else if endswith file_path_str ''.7z'' then Extract_7z
         else Extract_tar)"

section \<open>File system\<close>

text \<open>
  The file system is the finite map \<open>map_of fs\<close> from paths to nodes, kept as a list
  whose order is the order in which directory listings report the nodes. A node is a
  regular file, a directory, or something for which both \<open>is_file()\<close> and
  \<open>is_dir()\<close> answer False (a dangling symbolic link, a FIFO, a device). The flag
  \<open>undeletable\<close> says that removing the node raises (permissions, a file in use),
  \<open>unlistable\<close> that listing it raises when it is a directory (no read permission).
  Creating a directory does not fail; a failed \<open>rmtree\<close> is kept whole (what it removed
  below the entry before it stopped is not tracked). \<open>walk\<close> is \<open>os.walk\<close> with the two
  loops of the driver around it: every node below the root that is not a directory, once
  each; \<open>os.walk\<close> passes over a directory that it cannot list.
\<close>

datatype kind = RegularFile | Directory | Special

record node =
  kind :: kind
  st_size :: int
  undeletable :: bool
  unlistable :: bool

type_synonym filesystem = "(path \<times> node) list"

definition path_exists :: "filesystem \<Rightarrow> path \<Rightarrow> bool" where
  "path_exists fs p = (map_of fs p \<noteq> None)"

definition is_file :: "filesystem \<Rightarrow> path \<Rightarrow> bool" where
  "is_file fs p = (case map_of fs p of None \<Rightarrow> False | Some n \<Rightarrow> kind n = RegularFile)"

definition is_dir :: "filesystem \<Rightarrow> path \<Rightarrow> bool" where
  "is_dir fs p = (case map_of fs p of None \<Rightarrow> False | Some n \<Rightarrow> kind n = Directory)"

definition entries :: "filesystem \<Rightarrow> path \<Rightarrow> path list" where
  "entries fs d = remdups (filter (\<lambda>q. parent q = d \<and> q \<noteq> d) (map fst fs))"

definition unlistable_dir :: "filesystem \<Rightarrow> path \<Rightarrow> bool" where
  "unlistable_dir fs p =
     (case map_of fs p of None \<Rightarrow> False | Some n \<Rightarrow> kind n = Directory \<and> unlistable n)"

definition iterdir :: "filesystem \<Rightarrow> path \<Rightarrow> path list option" where
  "iterdir fs d = (if is_dir fs d \<and> \<not> unlistable_dir fs d then Some (entries fs d) else None)"

definition mkdir :: "filesystem \<Rightarrow> path \<Rightarrow> filesystem" where
  "mkdir fs d =
     (if path_exists fs d then fs
      else fs @ [(d, \<lparr>kind = Directory, st_size = 0, undeletable = False,
                     unlistable = False\<rparr>)])"

definition unlink :: "filesystem \<Rightarrow> path \<Rightarrow> filesystem option" where
  "unlink fs p =
     (case map_of fs p of
        None \<Rightarrow> None
      | Some n \<Rightarrow>
          if kind n = Directory \<or> undeletable n then None
          else Some (filter (\<lambda>e. fst e \<noteq> p) fs))"

definition rmtree :: "filesystem \<Rightarrow> path \<Rightarrow> filesystem option" where
  "rmtree fs p =
     (if is_dir fs p
         \<and> list_all (\<lambda>e. \<not> (prefix p (fst e)
                            \<and> (undeletable (snd e)
                                \<or> kind (snd e) = Directory \<and> unlistable (snd e)))) fs
      then Some (filter (\<lambda>e. \<not> prefix p (fst e)) fs)
      else None)"

definition rmdir :: "filesystem \<Rightarrow> path \<Rightarrow> filesystem option" where
  "rmdir fs d =
     (case map_of fs d of
        None \<Rightarrow> None
      | Some n \<Rightarrow>
          if kind n = Directory \<and> entries fs d = [] \<and> \<not> undeletable n
          then Some (filter (\<lambda>e. fst e \<noteq> d) fs)
          else None)"

definition walk :: "filesystem \<Rightarrow> path \<Rightarrow> path list" where
  "walk fs root =
     filter (\<lambda>p. strict_prefix root p \<and> \<not> is_dir fs p
                 \<and> \<not> list_ex (\<lambda>d. prefix root d \<and> unlistable_dir fs d) (prefixes p))
       (remdups (map fst fs))"

definition get_file_size :: "filesystem \<Rightarrow> path \<Rightarrow> int" where
  "get_file_size fs p = (case map_of fs p of None \<Rightarrow> 0 | Some n \<Rightarrow> st_size n)"

section \<open>The extractor\<close>

text \<open>
  \<open>env\<close> holds what the module gets from outside: the two availability flags and, per
  format, the library call inside the \<open>try\<close> of the extraction method. A library call
  maps the archive, the target directory and the file system to the file system it leaves
  and to whether it returned (True) or raised (False: every \<open>except\<close> clause of the
  method returns False).
\<close>

record env =
  HAS_7Z :: bool
  HAS_RAR :: bool
  zip_extractall :: "path \<Rightarrow> path \<Rightarrow> filesystem \<Rightarrow> bool \<times> filesystem"
  rar_extractall :: "path \<Rightarrow> path \<Rightarrow> filesystem \<Rightarrow> bool \<times> filesystem"
  sevenzip_extractall :: "path \<Rightarrow> path \<Rightarrow> filesystem \<Rightarrow> bool \<times> filesystem"
  tar_extractall :: "path \<Rightarrow> path \<Rightarrow> filesystem \<Rightarrow> bool \<times> filesystem"

record stats =
  extracted :: int
  failed :: int
  deleted :: int
  total_size :: int
  cleaned_up :: int

text \<open>
  The call log \<open>calls\<close> is not a field of the class: it records, in program order, the
  result of each scan of \<open>extract_all\<close>, each \<open>processed_files.add\<close>, each call of
  \<open>_extract_with_cleanup\<close> with what it returned, and each \<open>unlink\<close> of
  \<open>_delete_archives\<close> with whether it went through.
\<close>

datatype call = Found "path list" | Add path | Extract path bool | Unlink path bool

record extractor =
  source_folder :: path
  delete_after :: bool
  maintain_hierarchy :: bool
  processed_files :: "string set"
  pending_deletions :: "path list"
  stats :: stats
  fs :: filesystem
  calls :: "call list"

definition init :: "path \<Rightarrow> bool \<Rightarrow> bool \<Rightarrow> filesystem \<Rightarrow> extractor" where
  "init folder del hier disk =
     \<lparr>source_folder = folder, delete_after = del, maintain_hierarchy = hier,
      processed_files = {}, pending_deletions = [],
      stats = \<lparr>extracted = 0, failed = 0, deleted = 0, total_size = 0, cleaned_up = 0\<rparr>,
      fs = disk, calls = []\<rparr>"

definition extract_zip :: "env \<Rightarrow> path \<Rightarrow> path \<Rightarrow> filesystem \<Rightarrow> bool \<times> filesystem" where
  "extract_zip e archive_path extract_to disk = zip_extractall e archive_path extract_to disk"

definition extract_rar :: "env \<Rightarrow> path \<Rightarrow> path \<Rightarrow> filesystem \<Rightarrow> bool \<times> filesystem" where
  "extract_rar e archive_path extract_to disk =
     (if \<not> HAS_RAR e then (False, disk) else rar_extractall e archive_path extract_to disk)"

definition extract_7z :: "env \<Rightarrow> path \<Rightarrow> path \<Rightarrow> filesystem \<Rightarrow> bool \<times> filesystem" where
  "extract_7z e archive_path extract_to disk =
     (if \<not> HAS_7Z e then (False, disk) else sevenzip_extractall e archive_path extract_to disk)"

definition extract_tar :: "env \<Rightarrow> path \<Rightarrow> path \<Rightarrow> filesystem \<Rightarrow> bool \<times> filesystem" where
  "extract_tar e archive_path extract_to disk = tar_extractall e archive_path extract_to disk"

definition run_method ::
  "env \<Rightarrow> extract_method \<Rightarrow> path \<Rightarrow> path \<Rightarrow> filesystem \<Rightarrow> bool \<times> filesystem" where
  "run_method e m =
     (case m of
        Extract_zip \<Rightarrow> extract_zip e
      | Extract_rar \<Rightarrow> extract_rar e
      | Extract_7z \<Rightarrow> extract_7z e
      | Extract_tar \<Rightarrow> extract_tar e)"

definition get_extraction_path :: "extractor \<Rightarrow> path \<Rightarrow> path" where
  "get_extraction_path st archive_path =
     (let parent_dir = parent archive_path;
          base_name = stem archive_path;
          base_name = (if endswith base_name ''.tar''
                       then take (length base_name - 4) base_name else base_name)
      in if maintain_hierarchy st \<and> parent archive_path \<noteq> source_folder st
         then joinpath parent_dir base_name
         else joinpath parent_dir base_name)"

text \<open>
  \<open>_extract_with_cleanup\<close>. The body of the \<open>try\<close> raises when the target exists and
  cannot be listed (\<open>iterdir\<close> raises on what is not a directory and on a directory that
  may not be read), when the extraction method returns False and when nothing new is in
  the target; every raise runs \<open>cleanup\<close>, the \<open>except\<close> block, and the call returns
  False. The block lists the target again, and a listing that raises there ends the block
  before anything is removed or counted. \<open>existing_items\<close> is \<open>None\<close> while it is not
  bound. A Python
  set is iterated in an order of its own; the new items are taken in listing order.
  \<open>snapshot\<close> is the right-hand side of the assignment to \<open>existing_items\<close> and
  \<open>ensure_dir\<close> the \<open>if not extract_to.exists(): extract_to.mkdir(...)\<close>; the parent of
  the target is the directory that holds the archive, so \<open>mkdir\<close> has the target alone
  to create.
\<close>

definition remove_item :: "filesystem \<Rightarrow> path \<Rightarrow> filesystem" where
  "remove_item disk item =
     (if is_file disk item then (case unlink disk item of None \<Rightarrow> disk | Some disk' \<Rightarrow> disk')
      else if is_dir disk item then (case rmtree disk item of None \<Rightarrow> disk | Some disk' \<Rightarrow> disk')
      else disk)"

definition remove_created_dir :: "filesystem \<Rightarrow> path \<Rightarrow> filesystem" where
  "remove_created_dir disk extract_to =
     (case iterdir disk extract_to of
        None \<Rightarrow> disk
      | Some items \<Rightarrow>
          if items = [] then (case rmdir disk extract_to of None \<Rightarrow> disk | Some disk' \<Rightarrow> disk')
          else disk)"

definition cleanup :: "extractor \<Rightarrow> path \<Rightarrow> bool \<Rightarrow> path set option \<Rightarrow> extractor" where
  "cleanup st extract_to created_extraction_dir existing_items =
     (if path_exists (fs st) extract_to then
        (case iterdir (fs st) extract_to of
           None \<Rightarrow> st
         | Some current_items \<Rightarrow>
             (case existing_items of
                None \<Rightarrow> st
              | Some existing \<Rightarrow>
                  let new_items = filter (\<lambda>item. item \<notin> existing) current_items;
                      disk1 = fold (\<lambda>item disk. remove_item disk item) new_items (fs st);
                      disk2 = (if created_extraction_dir
                               then remove_created_dir disk1 extract_to else disk1)
                  in st\<lparr>fs := disk2,
                        stats := (stats st)\<lparr>cleaned_up := cleaned_up (stats st) + 1\<rparr>\<rparr>))
      else st)"

definition snapshot :: "filesystem \<Rightarrow> path \<Rightarrow> path list option" where
  "snapshot disk extract_to =
     (if path_exists disk extract_to then iterdir disk extract_to else Some [])"

definition ensure_dir :: "filesystem \<Rightarrow> path \<Rightarrow> filesystem" where
  "ensure_dir disk extract_to =
     (if \<not> path_exists disk extract_to then mkdir disk extract_to else disk)"

definition extract_with_cleanup ::
  "env \<Rightarrow> extractor \<Rightarrow> path \<Rightarrow> path \<Rightarrow> extract_method \<Rightarrow> bool \<times> extractor" where
  "extract_with_cleanup e st archive_path extract_to m =
     (case snapshot (fs st) extract_to of
        None \<Rightarrow> (False, cleanup st extract_to False None)
      | Some listed \<Rightarrow>
          let existing_items = set listed;
              created_extraction_dir = \<not> path_exists (fs st) extract_to;
              disk1 = ensure_dir (fs st) extract_to;
              (success, disk2) = run_method e m archive_path extract_to disk1;
              st2 = st\<lparr>fs := disk2\<rparr>
          in if \<not> success
             then (False, cleanup st2 extract_to created_extraction_dir (Some existing_items))
             else (case iterdir disk2 extract_to of
                     None \<Rightarrow>
                       (False, cleanup st2 extract_to created_extraction_dir (Some existing_items))
                   | Some current_items \<Rightarrow>
                       if filter (\<lambda>item. item \<notin> existing_items) current_items = []
                       then (False,
                             cleanup st2 extract_to created_extraction_dir (Some existing_items))
                       else (True, st2)))"

text \<open>\<open>_delete_archives\<close>: one step of its loop, then the method.\<close>

definition delete_one :: "path \<Rightarrow> extractor \<Rightarrow> extractor" where
  "delete_one archive_path st =
     (if path_exists (fs st) archive_path then
        (case unlink (fs st) archive_path of
           None \<Rightarrow> st\<lparr>calls := calls st @ [Unlink archive_path False]\<rparr>
         | Some disk' \<Rightarrow>
             st\<lparr>fs := disk',
                stats := (stats st)\<lparr>deleted := deleted (stats st) + 1\<rparr>,
                calls := calls st @ [Unlink archive_path True]\<rparr>)
      else st)"

definition delete_archives :: "extractor \<Rightarrow> extractor" where
  "delete_archives st =
     (if \<not> delete_after st \<or> pending_deletions st = [] then st
      else fold delete_one (pending_deletions st) st)"

text \<open>
  \<open>extract_all\<close>: the body of its \<open>for\<close> loop, the scan, the \<open>while True\<close> loop
  and the method. The loop need not return (an extraction may keep producing new
  archives), so \<open>extract_rounds\<close> is \<open>None\<close> when it does not. What is printed, the
  round number and the clock change nothing that the method reads and are left out.
\<close>

definition process_archive :: "env \<Rightarrow> path \<Rightarrow> extractor \<Rightarrow> extractor" where
  "process_archive e archive_path st =
     (let st1 = st\<lparr>processed_files := insert (str_of archive_path) (processed_files st),
                   calls := calls st @ [Add archive_path]\<rparr>;
          extract_to = get_extraction_path st1 archive_path;
          file_size = get_file_size (fs st1) archive_path;
          m = get_extract_method archive_path;
          (ok, st2) = extract_with_cleanup e st1 archive_path extract_to m;
          st3 = st2\<lparr>calls := calls st2 @ [Extract archive_path ok]\<rparr>
      in if ok then
           let st4 = st3\<lparr>stats := (stats st3)\<lparr>extracted := extracted (stats st3) + 1,
                                               total_size := total_size (stats st3) + file_size\<rparr>\<rparr>
           in if delete_after st4
              then st4\<lparr>pending_deletions := pending_deletions st4 @ [archive_path]\<rparr>
              else st4
         else st3\<lparr>stats := (stats st3)\<lparr>failed := failed (stats st3) + 1\<rparr>\<rparr>)"

definition find_archives :: "extractor \<Rightarrow> path list" where
  "find_archives st =
     filter (\<lambda>file_path. is_archive file_path \<and> str_of file_path \<notin> processed_files st)
       (walk (fs st) (source_folder st))"

partial_function (option) extract_rounds :: "env \<Rightarrow> extractor \<Rightarrow> extractor option" where
  "extract_rounds e st =
     (let all_archives = find_archives st;
          st1 = st\<lparr>calls := calls st @ [Found all_archives]\<rparr>
      in if all_archives = [] then Some st1
         else extract_rounds e (fold (process_archive e) all_archives st1))"

definition extract_all :: "env \<Rightarrow> extractor \<Rightarrow> extractor option" where
  "extract_all e st = map_option delete_archives (extract_rounds e st)"

section \<open>Example inputs\<close>

text \<open>Nodes, library calls and disks on which the theorems below are run.\<close>

definition plain_file :: "int \<Rightarrow> node" where
  "plain_file n =
     \<lparr>kind = RegularFile, st_size = n, undeletable = False, unlistable = False\<rparr>"

definition plain_dir :: node where
  "plain_dir = \<lparr>kind = Directory, st_size = 0, undeletable = False, unlistable = False\<rparr>"

definition idle_env :: env where
  "idle_env =
     \<lparr>HAS_7Z = False, HAS_RAR = False,
      zip_extractall = (\<lambda>a t d. (True, d)),
      rar_extractall = (\<lambda>a t d. (True, d)),
      sevenzip_extractall = (\<lambda>a t d. (True, d)),
      tar_extractall = (\<lambda>a t d. (True, d))\<rparr>"

text \<open>A disk on which the target of \<open>a.zip\<close> is there already and holds a file.\<close>

definition one_zip_disk :: filesystem where
  "one_zip_disk =
     [([''src''], plain_dir), ([''src'', ''a.zip''], plain_file 3),
      ([''src'', ''a''], plain_dir), ([''src'', ''a'', ''old.txt''], plain_file 7)]"








text \<open>
  A run with two archives. Each of the zip, rar and 7z libraries writes one file into the
  target when it is called, but the rar and 7z libraries are not installed; a tar library
  call fails after writing a file, a directory and a file in that directory.
  \<open>demo_state\<close> writes the states of that run.
\<close>

definition demo_env :: env where
  "demo_env =
     \<lparr>HAS_7Z = False, HAS_RAR = False,
      zip_extractall = (\<lambda>a t d. (True, d @ [(t @ [''f.txt''], plain_file 1)])),
      rar_extractall = (\<lambda>a t d. (True, d @ [(t @ [''f.txt''], plain_file 1)])),
      sevenzip_extractall = (\<lambda>a t d. (True, d @ [(t @ [''f.txt''], plain_file 1)])),
      tar_extractall =
        (\<lambda>a t d. (False, d @ [(t @ [''part''], plain_file 1), (t @ [''sub''], plain_dir),
                              (t @ [''sub'', ''inner''], plain_file 2)]))\<rparr>"

definition demo_disk :: filesystem where
  "demo_disk = [([''src''], plain_dir), ([''src'', ''a.zip''], plain_file 3), ([''src'', ''b.rar''], plain_file 5)]"

definition demo_state :: "string set \<Rightarrow> path list \<Rightarrow> int \<Rightarrow> int \<Rightarrow> int \<Rightarrow> int \<Rightarrow> int \<Rightarrow> filesystem \<Rightarrow> call list \<Rightarrow> extractor" where
  "demo_state done pending ex fa de sz cl disk log =
     \<lparr>source_folder = [''src''], delete_after = True, maintain_hierarchy = True,
      processed_files = done, pending_deletions = pending,
      stats = \<lparr>extracted = ex, failed = fa, deleted = de, total_size = sz, cleaned_up = cl\<rparr>,
      fs = disk, calls = log\<rparr>"

definition demo_final :: extractor where
  "demo_final =
     demo_state {''src/b.rar'', ''src/a.zip''} [[''src'', ''a.zip'']] 1 1 1 3 1
       [([''src''], plain_dir), ([''src'', ''b.rar''], plain_file 5),
        ([''src'', ''a''], plain_dir), ([''src'', ''a'', ''f.txt''], plain_file 1)]
       [Found [[''src'', ''a.zip''], [''src'', ''b.rar'']],
        Add [''src'', ''a.zip''], Extract [''src'', ''a.zip''] True,
        Add [''src'', ''b.rar''], Extract [''src'', ''b.rar''] False, Found [],
        Unlink [''src'', ''a.zip''] True]"


section \<open>Reading the call log\<close>

text \<open>
  The paths given to \<open>processed_files.add\<close>, the calls of \<open>_extract_with_cleanup\<close> with
  their results, and the paths given to \<open>unlink\<close> by \<open>_delete_archives\<close>, each in the
  order of the log.
\<close>

fun added :: "call list \<Rightarrow> path list" where
  "added [] = []"
| "added (Add p # cs) = p # added cs"
| "added (c # cs) = added cs"

fun outcomes :: "call list \<Rightarrow> (path \<times> bool) list" where
  "outcomes [] = []"
| "outcomes (Extract p r # cs) = (p, r) # outcomes cs"
| "outcomes (c # cs) = outcomes cs"

fun unlinked :: "call list \<Rightarrow> path list" where
  "unlinked [] = []"
| "unlinked (Unlink p r # cs) = p # unlinked cs"
| "unlinked (c # cs) = unlinked cs"

text \<open>
  What holds of the state between two archives of a run that started from \<open>init\<close>:
  the log and the fields of the extractor tell the same story.
\<close>

definition log_agrees :: "extractor \<Rightarrow> bool" where
  "log_agrees st \<longleftrightarrow>
     distinct (added (calls st))
     \<and> map fst (outcomes (calls st)) = added (calls st)
     \<and> processed_files st = str_of ` set (added (calls st))
     \<and> extracted (stats st) = int (length (filter snd (outcomes (calls st))))
     \<and> failed (stats st) = int (length (filter (\<lambda>x. \<not> snd x) (outcomes (calls st))))
     \<and> cleaned_up (stats st) \<le> failed (stats st)
     \<and> unlinked (calls st) = []
     \<and> pending_deletions st
         = (if delete_after st then map fst (filter snd (outcomes (calls st))) else [])"

definition add_precedes_extract :: "call list \<Rightarrow> bool" where
  "add_precedes_extract cs \<longleftrightarrow>
     (\<forall>cs1 p r cs2. cs = cs1 @ Extract p r # cs2 \<longrightarrow> Add p \<in> set cs1)"

definition scans_fresh :: "call list \<Rightarrow> bool" where
  "scans_fresh cs \<longleftrightarrow>
     (\<forall>cs1 xs cs2. cs = cs1 @ Found xs # cs2 \<longrightarrow>
        (\<forall>p \<in> set xs. str_of p \<notin> str_of ` set (added cs1)))"

definition run_invariant :: "extractor \<Rightarrow> bool" where
  "run_invariant st \<longleftrightarrow>
     log_agrees st \<and> add_precedes_extract (calls st) \<and> scans_fresh (calls st)"

declare extract_rounds.simps [code]

section \<open>The classifier reads the name only\<close>

lemma lower_append: "lower (a @ b) = lower a @ lower b"
  by (simp add: lower_def)

lemma lower_char_slash: "lower_char (CHR ''/'') = CHR ''/''"
  by (simp add: lower_char_def)

lemma join_sep_last:
  "xs \<noteq> [] \<Longrightarrow> \<exists>pre. join_sep ''/'' xs = pre @ last xs \<and> (pre = [] \<or> last pre = CHR ''/'')"
proof (induction "''/''" xs rule: join_sep.induct)
  case 1
  then show ?case by simp
next
  case (2 x)
  then show ?case by simp
next
  case (3 x y ys)
  then obtain pre where pre: "join_sep ''/'' (y # ys) = pre @ last (y # ys)"
    by auto
  have "join_sep ''/'' (x # y # ys) = (x @ ''/'' @ pre) @ last (x # y # ys)"
    using pre by simp
  moreover have "last (x @ ''/'' @ pre) = CHR ''/''"
    using 3 pre by (cases "pre = []") auto
  ultimately show ?case by blast
qed

lemma str_of_last:
  assumes "p \<noteq> []" "p \<noteq> [''/'']"
  shows "\<exists>pre. str_of p = pre @ last p \<and> (pre = [] \<or> last pre = CHR ''/'')"
proof (cases "hd p = ''/''")
  case True
  with assms have tl: "tl p \<noteq> []" by (cases p) auto
  then obtain pre where pre: "join_sep ''/'' (tl p) = pre @ last (tl p)"
    "pre = [] \<or> last pre = CHR ''/''"
    using join_sep_last by blast
  have l: "last (tl p) = last p" using tl by (cases p) auto
  have "str_of p = (''/'' @ pre) @ last p"
    using True assms pre l by (simp add: str_of_def)
  moreover have "last (''/'' @ pre) = CHR ''/''" using pre(2) by auto
  ultimately show ?thesis by blast
next
  case False
  then show ?thesis using assms join_sep_last[of p] by (simp add: str_of_def)
qed

lemma suffix_after_slash:
  assumes "CHR ''/'' \<notin> set ext" "pre = [] \<or> last pre = CHR ''/''"
  shows "suffix ext (pre @ n) \<longleftrightarrow> suffix ext n"
proof
  assume "suffix ext (pre @ n)"
  then consider "suffix ext n" | xs where "suffix xs pre" "ext = xs @ n"
    by (auto simp: suffix_append)
  then show "suffix ext n"
  proof cases
    case 1 then show ?thesis .
  next
    case 2
    show ?thesis
    proof (cases "xs = []")
      case True with 2 show ?thesis by simp
    next
      case False
      with 2(1) have "pre \<noteq> []" "last xs = last pre"
        by (auto simp: suffix_def)
      with assms(2) False have "CHR ''/'' \<in> set xs"
        by (metis last_in_set)
      with 2(2) assms(1) show ?thesis by simp
    qed
  qed
next
  assume "suffix ext n" then show "suffix ext (pre @ n)" by (simp add: suffix_appendI)
qed

lemma lower_pre:
  "pre = [] \<or> last pre = CHR ''/'' \<Longrightarrow> lower pre = [] \<or> last (lower pre) = CHR ''/''"
  by (cases "pre = []") (simp_all add: lower_def last_map lower_char_slash)

lemma endswith_str_of_name:
  assumes "CHR ''/'' \<notin> set ext" "\<not> suffix ext ''.''" "\<not> suffix ext ''/''" "ext \<noteq> []"
  shows "endswith (lower (str_of p)) ext \<longleftrightarrow> endswith (lower (path_name p)) ext"
proof (cases "p = [] \<or> p = [''/'']")
  case True
  then show ?thesis using assms
    by (auto simp: endswith_def str_of_def path_name_def lower_def lower_char_def)
next
  case False
  then obtain pre where pre: "str_of p = pre @ last p" "pre = [] \<or> last pre = CHR ''/''"
    using str_of_last by blast
  have "suffix ext (lower pre @ lower (last p)) \<longleftrightarrow> suffix ext (lower (last p))"
    using suffix_after_slash[OF assms(1) lower_pre[OF pre(2)]] .
  then show ?thesis using False pre(1)
    by (simp add: endswith_def path_name_def lower_append)
qed

text \<open>
  \<open>lower_char\<close> maps a capital ASCII letter to its small letter and leaves every other
  character alone, so a lowered string ends with a suffix written in small letters exactly
  when the string ends with the suffix up to the case of the letters.
\<close>

lemma map_of_default_iff:
  assumes "distinct (map fst xs)" "d \<notin> fst ` set xs"
  shows "(case map_of xs c of Some d' \<Rightarrow> d' | None \<Rightarrow> c) = d \<longleftrightarrow> c = d \<or> (c, d) \<in> set xs"
proof (cases "map_of xs c")
  case None
  from None[unfolded map_of_eq_None_iff]
  have "(c, d) \<notin> set xs" by (metis fst_conv image_eqI)
  then show ?thesis using None by simp
next
  case (Some d')
  have in': "(c, d') \<in> set xs" using Some by (rule map_of_SomeD)
  then have "c \<in> fst ` set xs" by (metis fst_conv image_eqI)
  then have "c \<noteq> d" using assms(2) by auto
  moreover have "(c, d) \<in> set xs \<longleftrightarrow> d = d'"
    using map_of_is_SomeI[OF assms(1), of c d] Some in' by auto
  ultimately show ?thesis using Some by auto
qed

lemma upper_distinct:
  "distinct (map fst (zip ''ABCDEFGHIJKLMNOPQRSTUVWXYZ'' ''abcdefghijklmnopqrstuvwxyz''))"
  by simp

lemma lower_char_iff:
  assumes "d \<notin> set ''ABCDEFGHIJKLMNOPQRSTUVWXYZ''"
  shows "lower_char c = d \<longleftrightarrow>
     c = d \<or> (c, d) \<in> set (zip ''ABCDEFGHIJKLMNOPQRSTUVWXYZ'' ''abcdefghijklmnopqrstuvwxyz'')"
proof -
  have "d \<notin> fst ` set (zip ''ABCDEFGHIJKLMNOPQRSTUVWXYZ'' ''abcdefghijklmnopqrstuvwxyz'')"
  proof
    assume "d \<in> fst ` set (zip ''ABCDEFGHIJKLMNOPQRSTUVWXYZ'' ''abcdefghijklmnopqrstuvwxyz'')"
    then obtain x where x: "x \<in> set (zip ''ABCDEFGHIJKLMNOPQRSTUVWXYZ'' ''abcdefghijklmnopqrstuvwxyz'')"
      "d = fst x" by (rule imageE)
    obtain c' d' where cd: "x = (c', d')" by (cases x)
    from x(1)[unfolded cd] have "c' \<in> set ''ABCDEFGHIJKLMNOPQRSTUVWXYZ''" by (rule set_zip_leftD)
    then show False using assms x(2) cd by simp
  qed
  from map_of_default_iff[OF upper_distinct this, of c]
  show ?thesis unfolding lower_char_def .
qed

lemma suffix_lower_iff:
  assumes "list_all (\<lambda>d. d \<notin> set ''ABCDEFGHIJKLMNOPQRSTUVWXYZ'') ext"
  shows "suffix ext (lower n) \<longleftrightarrow>
     (\<exists>pre sfx. n = pre @ sfx
        \<and> list_all2 (\<lambda>c d. c = d \<or> (c, d) \<in> set (zip ''ABCDEFGHIJKLMNOPQRSTUVWXYZ''
                                                     ''abcdefghijklmnopqrstuvwxyz'')) sfx ext)"
proof -
  have cong: "list_all2 (\<lambda>c d. lower_char c = d) sfx ext
      = list_all2 (\<lambda>c d. c = d \<or> (c, d) \<in> set (zip ''ABCDEFGHIJKLMNOPQRSTUVWXYZ''
                                                   ''abcdefghijklmnopqrstuvwxyz'')) sfx ext"
    for sfx
  proof (rule list.rel_cong[OF refl refl])
    fix c d assume d: "d \<in> set ext"
    from assms[unfolded list_all_iff] d have "d \<notin> set ''ABCDEFGHIJKLMNOPQRSTUVWXYZ''"
      by (rule bspec)
    then show "(lower_char c = d)
        = (c = d \<or> (c, d) \<in> set (zip ''ABCDEFGHIJKLMNOPQRSTUVWXYZ'' ''abcdefghijklmnopqrstuvwxyz''))"
      by (rule lower_char_iff)
  qed
  have m: "map lower_char sfx = ext \<longleftrightarrow> list_all2 (\<lambda>c d. lower_char c = d) sfx ext" for sfx
    unfolding list_all2_conv_all_nth list_eq_iff_nth_eq by auto
  have "suffix ext (lower n) \<longleftrightarrow> (\<exists>zs. map lower_char n = zs @ ext)"
    unfolding suffix_def lower_def by auto
  also have "\<dots> \<longleftrightarrow> (\<exists>pre sfx. n = pre @ sfx \<and> map lower_char sfx = ext)"
    unfolding map_eq_append_conv by auto
  also have "\<dots> \<longleftrightarrow> (\<exists>pre sfx. n = pre @ sfx
        \<and> list_all2 (\<lambda>c d. c = d \<or> (c, d) \<in> set (zip ''ABCDEFGHIJKLMNOPQRSTUVWXYZ''
                                                     ''abcdefghijklmnopqrstuvwxyz'')) sfx ext)"
    unfolding m cong ..
  finally show ?thesis .
qed

lemma extensions_lower:
  "list_all (\<lambda>ext. list_all (\<lambda>d. d \<notin> set ''ABCDEFGHIJKLMNOPQRSTUVWXYZ'') ext)
     archive_extensions"
  by code_simp


text \<open>
  Claim C8. \<open>_is_archive\<close> reads nothing but the string of the path, and it is true
  exactly when the name of the path (its last part), compared without regard to the case of
  the ASCII letters, ends with one of \<open>.zip .rar .7z .tar .gz .bz2 .tgz .tar.gz .tar.bz2\<close>:
  the name is some string followed by as many characters as the suffix has, each of them
  the character of the suffix at that place or the capital letter of it. The code tests
  the whole string \<open>str(file_path)\<close>; no suffix holds a slash, so the test only ever sees
  the name. It is true of \<open>x.zip x.tar.gz x.tar.bz2 x.tgz x.rar x.7z x.gz x.bz2\<close> and of
  \<open>X.ZIP x.Tar.Gz A/B.TGZ x.tar.BZ2 X.Rar x.7Z\<close>, and false of \<open>x.txt x.pdf x\<close> and of
  \<open>X.TXT x.zip/y xzip\<close>.
\<close>

theorem is_archive_suffixes:
  "(is_archive p \<longleftrightarrow>
      (\<exists>ext \<in> set [''.zip'', ''.rar'', ''.7z'', ''.tar'', ''.gz'', ''.bz2'', ''.tgz'',
                    ''.tar.gz'', ''.tar.bz2''].
         endswith (lower (path_name p)) ext))
   \<and> (is_archive p \<longleftrightarrow>
      (\<exists>ext \<in> set [''.zip'', ''.rar'', ''.7z'', ''.tar'', ''.gz'', ''.bz2'', ''.tgz'',
                    ''.tar.gz'', ''.tar.bz2''].
         \<exists>pre sfx. path_name p = pre @ sfx
           \<and> list_all2 (\<lambda>c d. c = d \<or> (c, d) \<in> set (zip ''ABCDEFGHIJKLMNOPQRSTUVWXYZ''
                                                        ''abcdefghijklmnopqrstuvwxyz''))
                 sfx ext))
   \<and> is_archive (Path ''x.zip'') \<and> is_archive (Path ''x.tar.gz'')
   \<and> is_archive (Path ''x.tar.bz2'') \<and> is_archive (Path ''x.tgz'')
   \<and> is_archive (Path ''x.rar'') \<and> is_archive (Path ''x.7z'')
   \<and> is_archive (Path ''x.gz'') \<and> is_archive (Path ''x.bz2'')
   \<and> \<not> is_archive (Path ''x.txt'') \<and> \<not> is_archive (Path ''x.pdf'')
   \<and> \<not> is_archive (Path ''x'')
   \<and> is_archive (Path ''X.ZIP'') \<and> is_archive (Path ''x.Tar.Gz'')
   \<and> is_archive (Path ''A/B.TGZ'') \<and> is_archive (Path ''x.tar.BZ2'')
   \<and> is_archive (Path ''X.Rar'') \<and> is_archive (Path ''x.7Z'')
   \<and> \<not> is_archive (Path ''X.TXT'') \<and> \<not> is_archive (Path ''x.zip/y'')
   \<and> \<not> is_archive (Path ''xzip'')"
proof -
  have ex: "\<And>ext. ext \<in> set archive_extensions \<Longrightarrow>
      endswith (lower (str_of p)) ext \<longleftrightarrow> endswith (lower (path_name p)) ext"
    by (rule endswith_str_of_name) (auto simp: archive_extensions_def suffix_to_prefix)
  have gen: "is_archive p \<longleftrightarrow>
      (\<exists>ext \<in> set archive_extensions. endswith (lower (path_name p)) ext)"
    using ex by (auto simp: is_archive_def list_ex_iff)
  have "\<forall>ext \<in> set archive_extensions.
      list_all (\<lambda>d. d \<notin> set ''ABCDEFGHIJKLMNOPQRSTUVWXYZ'') ext"
    using extensions_lower by (simp only: list_all_iff[where xs = archive_extensions])
  then have low: "list_all (\<lambda>d. d \<notin> set ''ABCDEFGHIJKLMNOPQRSTUVWXYZ'') ext"
    if "ext \<in> set archive_extensions" for ext
    using that by (rule bspec)
  have step: "endswith (lower (path_name p)) ext \<longleftrightarrow>
      (\<exists>pre sfx. path_name p = pre @ sfx
           \<and> list_all2 (\<lambda>c d. c = d \<or> (c, d) \<in> set (zip ''ABCDEFGHIJKLMNOPQRSTUVWXYZ''
                                                        ''abcdefghijklmnopqrstuvwxyz''))
                 sfx ext)"
    if "ext \<in> set archive_extensions" for ext
    unfolding endswith_def by (rule suffix_lower_iff[OF low[OF that]])
  have gen2: "is_archive p \<longleftrightarrow>
      (\<exists>ext \<in> set archive_extensions.
         \<exists>pre sfx. path_name p = pre @ sfx
           \<and> list_all2 (\<lambda>c d. c = d \<or> (c, d) \<in> set (zip ''ABCDEFGHIJKLMNOPQRSTUVWXYZ''
                                                        ''abcdefghijklmnopqrstuvwxyz''))
                 sfx ext)"
    unfolding gen by (rule bex_cong[OF refl]) (rule step)
  have conc: "is_archive (Path ''x.zip'')" "is_archive (Path ''x.tar.gz'')"
    "is_archive (Path ''x.tar.bz2'')" "is_archive (Path ''x.tgz'')"
    "is_archive (Path ''x.rar'')" "is_archive (Path ''x.7z'')"
    "is_archive (Path ''x.gz'')" "is_archive (Path ''x.bz2'')"
    "\<not> is_archive (Path ''x.txt'')" "\<not> is_archive (Path ''x.pdf'')"
    "\<not> is_archive (Path ''x'')"
    by (simp_all add: is_archive_def endswith_def Path_def str_of_def lower_def lower_char_def
        archive_extensions_def suffix_to_prefix)
  have mixed: "is_archive (Path ''X.ZIP'')" "is_archive (Path ''x.Tar.Gz'')"
    "is_archive (Path ''A/B.TGZ'')" "is_archive (Path ''x.tar.BZ2'')"
    "is_archive (Path ''X.Rar'')" "is_archive (Path ''x.7Z'')"
    "\<not> is_archive (Path ''X.TXT'')" "\<not> is_archive (Path ''x.zip/y'')"
    "\<not> is_archive (Path ''xzip'')"
    by (simp_all add: is_archive_def endswith_def Path_def str_of_def lower_def lower_char_def
        archive_extensions_def suffix_to_prefix)
  note g1 = gen[unfolded archive_extensions_def] and g2 = gen2[unfolded archive_extensions_def]
  show ?thesis by (intro conjI g1 g2 conc mixed)
qed

section \<open>Placement\<close>

lemma rfind_absent: "c \<notin> set xs \<Longrightarrow> rfind c xs = - 1"
  by (induction xs) (auto simp: Let_def)

lemma rfind_last: "c \<notin> set e \<Longrightarrow> rfind c (b @ c # e) = int (length b)"
  by (induction b) (auto simp: Let_def rfind_absent)

lemma split_slash_plain: "CHR ''/'' \<notin> set s \<Longrightarrow> split_slash s = [s]"
  by (induction s) auto

lemma Path_plain:
  "CHR ''/'' \<notin> set s \<Longrightarrow> s \<noteq> [] \<Longrightarrow> s \<noteq> ''.'' \<Longrightarrow> Path s = [s]"
  by (cases s) (auto simp: Path_def split_slash_plain)

lemma joinpath_plain:
  "CHR ''/'' \<notin> set s \<Longrightarrow> s \<noteq> [] \<Longrightarrow> s \<noteq> ''.'' \<Longrightarrow> joinpath d s = d @ [s]"
  by (cases s) (auto simp: joinpath_def Path_plain)

lemma stem_dotted:
  assumes "b \<noteq> []" "e \<noteq> []" "CHR ''.'' \<notin> set e"
  shows "stem (d @ [b @ ''.'' @ e]) = b"
proof -
  have nm: "path_name (d @ [b @ CHR ''.'' # e]) = b @ CHR ''.'' # e"
    using assms(1) by (cases b) (auto simp: path_name_def)
  have rf: "rfind (CHR ''.'') (b @ CHR ''.'' # e) = int (length b)"
    using assms(3) by (rule rfind_last)
  have "stem (d @ [b @ CHR ''.'' # e]) = b"
    unfolding stem_def nm Let_def rf using assms(1,2) by simp
  then show ?thesis by simp
qed

lemma parent_snoc: "n \<noteq> ''/'' \<Longrightarrow> parent (d @ [n]) = d"
  by (simp add: parent_def)

text \<open>
  Claim C6. For every archive path, \<open>_get_extraction_path\<close> returns the parent
  directory of the archive joined with the stem of its name, and a stem that ends in
  \<open>.tar\<close> loses these four characters first. So a name \<open>b.tar.e\<close> in a directory \<open>d\<close>
  resolves to \<open>d/b\<close>, and a name \<open>b.e\<close> whose \<open>b\<close> does not end in \<open>.tar\<close> resolves
  to \<open>d/b\<close> as well (\<open>e\<close> an extension without a dot, \<open>b\<close> a name of its own);
  \<open>a/b.tar.gz\<close> and \<open>a/b.zip\<close> both resolve to \<open>a/b\<close>.
\<close>

theorem get_extraction_path_target:
  "get_extraction_path st archive_path =
     joinpath (parent archive_path)
       (if endswith (stem archive_path) ''.tar''
        then take (length (stem archive_path) - 4) (stem archive_path)
        else stem archive_path)
   \<and> (\<forall>d b e. b \<noteq> [] \<and> b \<noteq> ''.'' \<and> CHR ''/'' \<notin> set b \<and> e \<noteq> [] \<and> CHR ''.'' \<notin> set e \<longrightarrow>
        get_extraction_path st (d @ [b @ ''.tar.'' @ e]) = d @ [b]
        \<and> (\<not> endswith b ''.tar'' \<longrightarrow> get_extraction_path st (d @ [b @ ''.'' @ e]) = d @ [b]))
   \<and> get_extraction_path st (Path ''a/b.tar.gz'') = Path ''a/b''
   \<and> get_extraction_path st (Path ''a/b.zip'') = Path ''a/b''
   \<and> str_of (get_extraction_path st (Path ''a/b.tar.gz'')) = ''a/b''
   \<and> str_of (get_extraction_path st (Path ''a/b.zip'')) = ''a/b''"
proof -
  have gen: "get_extraction_path st archive_path =
     joinpath (parent archive_path)
       (if endswith (stem archive_path) ''.tar''
        then take (length (stem archive_path) - 4) (stem archive_path)
        else stem archive_path)"
    by (simp add: get_extraction_path_def Let_def)
  have tar: "get_extraction_path st (d @ [b @ ''.tar.'' @ e]) = d @ [b]"
    if "b \<noteq> []" "b \<noteq> ''.''" "CHR ''/'' \<notin> set b" "e \<noteq> []" "CHR ''.'' \<notin> set e" for d b e
  proof -
    let ?a = "d @ [b @ ''.tar.'' @ e]"
    have "stem (d @ [(b @ ''.tar'') @ ''.'' @ e]) = b @ ''.tar''"
      using that by (intro stem_dotted) auto
    then have s: "stem ?a = b @ ''.tar''" by simp
    have p: "parent ?a = d"
      using that(1) by (intro parent_snoc) (cases b, auto)
    have "get_extraction_path st ?a =
        joinpath d (if endswith (b @ ''.tar'') ''.tar''
                    then take (length (b @ ''.tar'') - 4) (b @ ''.tar'') else b @ ''.tar'')"
      by (simp only: get_extraction_path_def Let_def s p if_cancel)
    also have "\<dots> = d @ [b]"
      using that by (simp add: endswith_def joinpath_plain suffix_def)
    finally show ?thesis .
  qed
  have plain: "get_extraction_path st (d @ [b @ ''.'' @ e]) = d @ [b]"
    if "b \<noteq> []" "b \<noteq> ''.''" "CHR ''/'' \<notin> set b" "e \<noteq> []" "CHR ''.'' \<notin> set e"
      "\<not> endswith b ''.tar''" for d b e
  proof -
    let ?a = "d @ [b @ ''.'' @ e]"
    have s: "stem ?a = b" using that by (intro stem_dotted) auto
    have p: "parent ?a = d"
      using that(1) by (intro parent_snoc) (cases b, auto)
    have "get_extraction_path st ?a =
        joinpath d (if endswith b ''.tar'' then take (length b - 4) b else b)"
      by (simp only: get_extraction_path_def Let_def s p if_cancel)
    also have "\<dots> = d @ [b]"
      using that by (simp add: joinpath_plain)
    finally show ?thesis .
  qed
  have ex1: "get_extraction_path st (Path ''a/b.tar.gz'') = Path ''a/b''"
    using tar[of "''b''" "''gz''" "[''a'']"] by (simp add: Path_def)
  have ex2: "get_extraction_path st (Path ''a/b.zip'') = Path ''a/b''"
    using plain[of "''b''" "''zip''" "[''a'']"] by (simp add: Path_def endswith_def suffix_to_prefix)
  have s: "str_of (Path ''a/b'') = ''a/b''" by (simp add: Path_def str_of_def)
  show ?thesis using gen tar plain ex1 ex2 s by simp
qed

theorem get_extraction_path_target_witness:
  "get_extraction_path (init [''src''] False True []) [''src'', ''sub'', ''data.tar.bz2'']
     = [''src'', ''sub'', ''data'']
   \<and> get_extraction_path (init [''src''] False True []) [''src'', ''data.7z'']
     = [''src'', ''data'']"
proof -
  let ?st = "init [''src''] False True []"
  have all: "\<forall>d b e. b \<noteq> [] \<and> b \<noteq> ''.'' \<and> CHR ''/'' \<notin> set b \<and> e \<noteq> [] \<and> CHR ''.'' \<notin> set e \<longrightarrow>
        get_extraction_path ?st (d @ [b @ ''.tar.'' @ e]) = d @ [b]
        \<and> (\<not> endswith b ''.tar'' \<longrightarrow> get_extraction_path ?st (d @ [b @ ''.'' @ e]) = d @ [b])"
    using get_extraction_path_target[of ?st "[]"] by blast
  have a: "get_extraction_path ?st ([''src'', ''sub''] @ [''data'' @ ''.tar.'' @ ''bz2''])
      = [''src'', ''sub''] @ [''data'']"
    using all[rule_format, of "''data''" "''bz2''" "[''src'', ''sub'']"] by simp
  have b: "get_extraction_path ?st ([''src''] @ [''data'' @ ''.'' @ ''7z'']) = [''src''] @ [''data'']"
    using all[rule_format, of "''data''" "''7z''" "[''src'']"]
    by (simp add: endswith_def suffix_to_prefix)
  show ?thesis using a b by simp
qed

text \<open>
  Claim C7. The target that \<open>_get_extraction_path\<close> resolves in nested mode
  (\<open>maintain_hierarchy\<close> true) is the target it resolves in flat mode: both branches of
  the test on the mode return \<open>parent_dir / base_name\<close>.
\<close>

theorem get_extraction_path_mode_irrelevant:
  "get_extraction_path (st\<lparr>maintain_hierarchy := True\<rparr>) archive_path
     = get_extraction_path (st\<lparr>maintain_hierarchy := False\<rparr>) archive_path"
  by (simp add: get_extraction_path_def)

section \<open>The transactional extractor\<close>

lemma extract_with_cleanup_unlistable:
  "snapshot (fs st) t = None \<Longrightarrow>
   extract_with_cleanup e st a t m = (False, cleanup st t False None)"
  by (simp add: extract_with_cleanup_def)

lemma extract_with_cleanup_listed:
  assumes "snapshot (fs st) t = Some listed"
    and "run_method e m a t (ensure_dir (fs st) t) = (success, disk2)"
  shows "extract_with_cleanup e st a t m =
     (if success \<and> (\<exists>cur. iterdir disk2 t = Some cur \<and> filter (\<lambda>i. i \<notin> set listed) cur \<noteq> [])
      then (True, st\<lparr>fs := disk2\<rparr>)
      else (False, cleanup (st\<lparr>fs := disk2\<rparr>) t (\<not> path_exists (fs st) t) (Some (set listed))))"
  using assms by (auto simp: extract_with_cleanup_def Let_def split: option.splits)

lemma iterdir_Some: "iterdir disk t = Some xs \<Longrightarrow> xs = entries disk t"
  by (auto simp: iterdir_def split: if_splits)

lemma iterdir_listed: "iterdir disk t \<noteq> None \<Longrightarrow> iterdir disk t = Some (entries disk t)"
  by (auto simp: iterdir_def split: if_splits)



lemma cleanup_unlistable: "iterdir (fs st) t = None \<Longrightarrow> cleanup st t c ex = st"
  by (simp add: cleanup_def)

lemma extract_with_cleanup_blocked:
  "path_exists (fs st) t \<Longrightarrow> iterdir (fs st) t = None \<Longrightarrow>
   extract_with_cleanup e st a t m = (False, st)"
  by (simp add: extract_with_cleanup_unlistable snapshot_def cleanup_unlistable)

lemma snapshot_entries:
  "path_exists disk t \<longrightarrow> iterdir disk t \<noteq> None \<Longrightarrow>
   snapshot disk t = Some (if path_exists disk t then entries disk t else [])"
  by (auto simp: snapshot_def iterdir_listed)

lemma extract_with_cleanup_cases:
  assumes "path_exists (fs st) t \<longrightarrow> iterdir (fs st) t \<noteq> None"
    and "run_method e m a t (ensure_dir (fs st) t) = (success, disk2)"
  shows "extract_with_cleanup e st a t m =
     (if success \<and> iterdir disk2 t \<noteq> None
         \<and> set (entries disk2 t)
              - (if path_exists (fs st) t then set (entries (fs st) t) else {}) \<noteq> {}
      then (True, st\<lparr>fs := disk2\<rparr>)
      else (False, cleanup (st\<lparr>fs := disk2\<rparr>) t (\<not> path_exists (fs st) t)
                     (Some (if path_exists (fs st) t then set (entries (fs st) t) else {}))))"
proof -
  let ?listed = "if path_exists (fs st) t then entries (fs st) t else []"
  have s: "set ?listed = (if path_exists (fs st) t then set (entries (fs st) t) else {})"
    by simp
  have "(\<exists>cur. iterdir disk2 t = Some cur \<and> filter (\<lambda>i. i \<notin> set ?listed) cur \<noteq> [])
      \<longleftrightarrow> iterdir disk2 t \<noteq> None \<and> set (entries disk2 t) - set ?listed \<noteq> {}"
    by (cases "iterdir disk2 t") (auto simp: filter_empty_conv dest: iterdir_Some)
  then show ?thesis
    unfolding extract_with_cleanup_listed[OF snapshot_entries[OF assms(1)] assms(2)] s
    by simp
qed


text \<open>
  Claim C4. When the extraction method reports success and the target, as it is on the
  disk after the method, holds no entry that it did not hold on the disk before the call
  (a target that was not there held none), \<open>_extract_with_cleanup\<close> returns False.
\<close>

theorem no_output_is_failure:
  assumes "run_method e m archive_path extract_to (ensure_dir (fs st) extract_to) = (True, disk2)"
    and "set (entries disk2 extract_to)
           - (if path_exists (fs st) extract_to then set (entries (fs st) extract_to) else {})
         = {}"
  shows "fst (extract_with_cleanup e st archive_path extract_to m) = False"
proof (cases "path_exists (fs st) extract_to \<and> iterdir (fs st) extract_to = None")
  case True
  then show ?thesis by (simp add: extract_with_cleanup_blocked)
next
  case False
  then have "path_exists (fs st) extract_to \<longrightarrow> iterdir (fs st) extract_to \<noteq> None" by simp
  from extract_with_cleanup_cases[OF this assms(1)] assms(2) show ?thesis by simp
qed

text \<open>
  On \<open>one_zip_disk\<close> the target holds \<open>old.txt\<close> before the call; the zip library
  reports success and writes nothing.
\<close>

lemma one_zip_run:
  "run_method idle_env Extract_zip [''src'', ''a.zip''] [''src'', ''a'']
     (ensure_dir (fs (init [''src''] False True one_zip_disk)) [''src'', ''a''])
   = (True, one_zip_disk)"
  by (simp add: init_def ensure_dir_def one_zip_disk_def path_exists_def run_method_def
      extract_zip_def idle_env_def)

lemma one_zip_entries:
  "entries one_zip_disk [''src'', ''a''] = [[''src'', ''a'', ''old.txt'']]"
  by (simp add: one_zip_disk_def entries_def parent_def)

theorem no_output_is_failure_witness:
  "run_method idle_env Extract_zip [''src'', ''a.zip''] [''src'', ''a'']
        (ensure_dir (fs (init [''src''] False True one_zip_disk)) [''src'', ''a''])
      = (True, one_zip_disk)
   \<and> path_exists (fs (init [''src''] False True one_zip_disk)) [''src'', ''a'']
   \<and> entries (fs (init [''src''] False True one_zip_disk)) [''src'', ''a'']
       = [[''src'', ''a'', ''old.txt'']]
   \<and> entries one_zip_disk [''src'', ''a''] = [[''src'', ''a'', ''old.txt'']]
   \<and> fst (extract_with_cleanup idle_env (init [''src''] False True one_zip_disk)
             [''src'', ''a.zip''] [''src'', ''a''] Extract_zip) = False"
proof -
  let ?st = "init [''src''] False True one_zip_disk"
  have f: "fs ?st = one_zip_disk" by (simp add: init_def)
  have ex: "path_exists (fs ?st) [''src'', ''a'']"
    unfolding f by (simp add: one_zip_disk_def path_exists_def)
  have en: "entries (fs ?st) [''src'', ''a''] = [[''src'', ''a'', ''old.txt'']]"
    unfolding f by (rule one_zip_entries)
  have d: "set (entries one_zip_disk [''src'', ''a''])
      - (if path_exists (fs ?st) [''src'', ''a''] then set (entries (fs ?st) [''src'', ''a'']) else {})
      = {}"
    using ex by (simp add: en one_zip_entries)
  show ?thesis
    by (intro conjI one_zip_run ex en one_zip_entries no_output_is_failure[OF one_zip_run d])
qed

section \<open>A run on the example disk\<close>

lemmas fs_defs = walk_def is_dir_def is_file_def path_exists_def iterdir_def unlistable_dir_def
  entries_def mkdir_def
  unlink_def rmtree_def rmdir_def get_file_size_def parent_def plain_file_def plain_dir_def

lemmas name_defs = is_archive_def archive_extensions_def endswith_def lower_def lower_char_def
  str_of_def suffix_to_prefix get_extraction_path_def stem_def path_name_def joinpath_def Path_def
  get_extract_method_def

lemmas step_defs = process_archive_def extract_with_cleanup_def snapshot_def ensure_dir_def
  run_method_def extract_zip_def extract_rar_def extract_tar_def extract_7z_def cleanup_def
  remove_item_def remove_created_dir_def Let_def

lemma demo_init: "init [''src''] True True demo_disk = demo_state {} [] 0 0 0 0 0 demo_disk []"
  by (simp add: init_def demo_state_def)

lemma demo_scan1:
  "find_archives (demo_state {} [] 0 0 0 0 0 demo_disk []) = [[''src'', ''a.zip''], [''src'', ''b.rar'']]"
  by (simp add: find_archives_def demo_state_def demo_disk_def fs_defs name_defs)

lemma demo_step1:
  "process_archive demo_env [''src'', ''a.zip'']
     (demo_state {} [] 0 0 0 0 0 demo_disk [Found [[''src'', ''a.zip''], [''src'', ''b.rar'']]])
   = demo_state {''src/a.zip''} [[''src'', ''a.zip'']] 1 0 0 3 0
       (demo_disk @ [([''src'', ''a''], plain_dir), ([''src'', ''a'', ''f.txt''], plain_file 1)])
       [Found [[''src'', ''a.zip''], [''src'', ''b.rar'']], Add [''src'', ''a.zip''], Extract [''src'', ''a.zip''] True]"
  by (simp add: demo_state_def demo_env_def demo_disk_def fs_defs name_defs step_defs)


lemma demo_step2:
  "process_archive demo_env [''src'', ''b.rar'']
     (demo_state {''src/a.zip''} [[''src'', ''a.zip'']] 1 0 0 3 0
       (demo_disk @ [([''src'', ''a''], plain_dir), ([''src'', ''a'', ''f.txt''], plain_file 1)])
       [Found [[''src'', ''a.zip''], [''src'', ''b.rar'']], Add [''src'', ''a.zip''], Extract [''src'', ''a.zip''] True])
   = demo_state {''src/b.rar'', ''src/a.zip''} [[''src'', ''a.zip'']] 1 1 0 3 1
       (demo_disk @ [([''src'', ''a''], plain_dir), ([''src'', ''a'', ''f.txt''], plain_file 1)])
       [Found [[''src'', ''a.zip''], [''src'', ''b.rar'']], Add [''src'', ''a.zip''], Extract [''src'', ''a.zip''] True,
        Add [''src'', ''b.rar''], Extract [''src'', ''b.rar''] False]"
  by (simp add: demo_state_def demo_env_def demo_disk_def fs_defs name_defs step_defs)

lemma demo_scan2:
  "find_archives (demo_state {''src/b.rar'', ''src/a.zip''} pending ex fa de sz cl
       (demo_disk @ [([''src'', ''a''], plain_dir), ([''src'', ''a'', ''f.txt''], plain_file 1)]) log) = []"
  by (simp add: find_archives_def demo_state_def demo_disk_def fs_defs name_defs)

lemma demo_log: "(demo_state done pending ex fa de sz cl disk log)\<lparr>calls := log'\<rparr>
    = demo_state done pending ex fa de sz cl disk log'"
  "calls (demo_state done pending ex fa de sz cl disk log) = log"
  by (simp_all add: demo_state_def)

lemma demo_rounds:
  "extract_rounds demo_env (init [''src''] True True demo_disk)
   = Some (demo_state {''src/b.rar'', ''src/a.zip''} [[''src'', ''a.zip'']] 1 1 0 3 1
       (demo_disk @ [([''src'', ''a''], plain_dir), ([''src'', ''a'', ''f.txt''], plain_file 1)])
       [Found [[''src'', ''a.zip''], [''src'', ''b.rar'']], Add [''src'', ''a.zip''], Extract [''src'', ''a.zip''] True,
        Add [''src'', ''b.rar''], Extract [''src'', ''b.rar''] False, Found []])"
  apply (subst extract_rounds.simps)
  apply (simp only: demo_init demo_scan1 Let_def demo_log list.simps if_False fold_simps demo_step1 append_Nil)
  apply (simp only: demo_step2)
  apply (subst extract_rounds.simps)
  apply (simp only: demo_scan2 Let_def demo_log if_True)
  apply simp
  done

lemma demo_delete:
  "delete_archives (demo_state {''src/b.rar'', ''src/a.zip''} [[''src'', ''a.zip'']] 1 1 0 3 1
       (demo_disk @ [([''src'', ''a''], plain_dir), ([''src'', ''a'', ''f.txt''], plain_file 1)]) log)
   = demo_state {''src/b.rar'', ''src/a.zip''} [[''src'', ''a.zip'']] 1 1 1 3 1
       [([''src''], plain_dir), ([''src'', ''b.rar''], plain_file 5),
        ([''src'', ''a''], plain_dir), ([''src'', ''a'', ''f.txt''], plain_file 1)]
       (log @ [Unlink [''src'', ''a.zip''] True])"
  by (simp add: delete_archives_def delete_one_def demo_state_def demo_disk_def path_exists_def
      unlink_def plain_file_def plain_dir_def)

lemma demo_run:
  "extract_all demo_env (init [''src''] True True demo_disk)
   = Some (demo_state {''src/b.rar'', ''src/a.zip''} [[''src'', ''a.zip'']] 1 1 1 3 1
       [([''src''], plain_dir), ([''src'', ''b.rar''], plain_file 5),
        ([''src'', ''a''], plain_dir), ([''src'', ''a'', ''f.txt''], plain_file 1)]
       [Found [[''src'', ''a.zip''], [''src'', ''b.rar'']], Add [''src'', ''a.zip''], Extract [''src'', ''a.zip''] True,
        Add [''src'', ''b.rar''], Extract [''src'', ''b.rar''] False, Found [],
        Unlink [''src'', ''a.zip''] True])"
  by (simp add: extract_all_def demo_rounds demo_delete)

section \<open>The driver\<close>

lemma added_append: "added (xs @ ys) = added xs @ added ys"
  by (induction xs rule: added.induct) simp_all

lemma outcomes_append: "outcomes (xs @ ys) = outcomes xs @ outcomes ys"
  by (induction xs rule: outcomes.induct) simp_all

lemma unlinked_append: "unlinked (xs @ ys) = unlinked xs @ unlinked ys"
  by (induction xs rule: unlinked.induct) simp_all

lemma set_added: "set (added cs) = {p. Add p \<in> set cs}"
  by (induction cs rule: added.induct) auto

lemma set_outcomes: "set (outcomes cs) = {(p, r). Extract p r \<in> set cs}"
  by (induction cs rule: outcomes.induct) auto

lemma set_unlinked: "set (unlinked cs) = {p. \<exists>r. Unlink p r \<in> set cs}"
  by (induction cs rule: unlinked.induct) auto

text \<open>What a call of \<open>cleanup\<close> and of \<open>_extract_with_cleanup\<close> leaves alone.\<close>

lemma cleanup_frame:
  "\<exists>disk' n. cleanup st t c ex = st\<lparr>fs := disk', stats := (stats st)\<lparr>cleaned_up := n\<rparr>\<rparr>
     \<and> (n = cleaned_up (stats st) \<or> n = cleaned_up (stats st) + 1)"
proof -
  have triv: "st = st\<lparr>fs := fs st, stats := (stats st)\<lparr>cleaned_up := cleaned_up (stats st)\<rparr>\<rparr>"
    by simp
  show ?thesis
    unfolding cleanup_def Let_def
    by (auto split: option.splits intro: exI[of _ "fs st"] triv)
qed

lemma extract_with_cleanup_frame:
  "\<exists>disk' n. snd (extract_with_cleanup e st a t m)
       = st\<lparr>fs := disk', stats := (stats st)\<lparr>cleaned_up := n\<rparr>\<rparr>
     \<and> (if fst (extract_with_cleanup e st a t m) then n = cleaned_up (stats st)
         else n = cleaned_up (stats st) \<or> n = cleaned_up (stats st) + 1)"
proof (cases "snapshot (fs st) t")
  case None
  then show ?thesis
    using cleanup_frame[of st t False None] by (simp add: extract_with_cleanup_unlistable)
next
  case (Some listed)
  obtain success disk2 where run: "run_method e m a t (ensure_dir (fs st) t) = (success, disk2)"
    by (cases "run_method e m a t (ensure_dir (fs st) t)") auto
  note eq = extract_with_cleanup_listed[OF Some run]
  show ?thesis
  proof (cases "fst (extract_with_cleanup e st a t m)")
    case True
    then have "extract_with_cleanup e st a t m = (True, st\<lparr>fs := disk2\<rparr>)"
      using eq by (auto split: if_splits)
    then show ?thesis
      by (auto intro!: exI[of _ disk2] exI[of _ "cleaned_up (stats st)"])
  next
    case False
    then have r: "extract_with_cleanup e st a t m =
        (False, cleanup (st\<lparr>fs := disk2\<rparr>) t (\<not> path_exists (fs st) t) (Some (set listed)))"
      using eq by (auto split: if_splits)
    obtain disk' n where c: "cleanup (st\<lparr>fs := disk2\<rparr>) t (\<not> path_exists (fs st) t) (Some (set listed))
        = (st\<lparr>fs := disk2\<rparr>)\<lparr>fs := disk', stats := (stats (st\<lparr>fs := disk2\<rparr>))\<lparr>cleaned_up := n\<rparr>\<rparr>"
      "n = cleaned_up (stats (st\<lparr>fs := disk2\<rparr>)) \<or> n = cleaned_up (stats (st\<lparr>fs := disk2\<rparr>)) + 1"
      using cleanup_frame by blast
    show ?thesis using r c by (auto intro!: exI[of _ disk'] exI[of _ n])
  qed
qed

text \<open>The body of the \<open>for\<close> loop, field by field.\<close>

lemma process_archive_effect:
  "\<exists>ok n disk'.
     calls (process_archive e a st) = calls st @ [Add a, Extract a ok]
     \<and> processed_files (process_archive e a st) = insert (str_of a) (processed_files st)
     \<and> extracted (stats (process_archive e a st)) = extracted (stats st) + (if ok then 1 else 0)
     \<and> failed (stats (process_archive e a st)) = failed (stats st) + (if ok then 0 else 1)
     \<and> deleted (stats (process_archive e a st)) = deleted (stats st)
     \<and> cleaned_up (stats (process_archive e a st)) = n
     \<and> cleaned_up (stats st) \<le> n \<and> n \<le> cleaned_up (stats st) + (if ok then 0 else 1)
     \<and> pending_deletions (process_archive e a st)
         = pending_deletions st @ (if ok \<and> delete_after st then [a] else [])
     \<and> delete_after (process_archive e a st) = delete_after st
     \<and> source_folder (process_archive e a st) = source_folder st
     \<and> maintain_hierarchy (process_archive e a st) = maintain_hierarchy st
     \<and> fs (process_archive e a st) = disk'"
proof -
  define st1 where "st1 = st\<lparr>processed_files := insert (str_of a) (processed_files st),
                   calls := calls st @ [Add a]\<rparr>"
  define t where "t = get_extraction_path st1 a"
  define m where "m = get_extract_method a"
  define ok where "ok = fst (extract_with_cleanup e st1 a t m)"
  obtain disk' n where fr: "snd (extract_with_cleanup e st1 a t m)
       = st1\<lparr>fs := disk', stats := (stats st1)\<lparr>cleaned_up := n\<rparr>\<rparr>"
     "if ok then n = cleaned_up (stats st1)
      else n = cleaned_up (stats st1) \<or> n = cleaned_up (stats st1) + 1"
    using extract_with_cleanup_frame[of e st1 a t m] unfolding ok_def by blast
  have pa: "process_archive e a st =
      (let st2 = snd (extract_with_cleanup e st1 a t m);
           st3 = st2\<lparr>calls := calls st2 @ [Extract a ok]\<rparr>
       in if ok then
            let st4 = st3\<lparr>stats := (stats st3)\<lparr>extracted := extracted (stats st3) + 1,
                         total_size := total_size (stats st3) + get_file_size (fs st1) a\<rparr>\<rparr>
            in if delete_after st4
               then st4\<lparr>pending_deletions := pending_deletions st4 @ [a]\<rparr> else st4
          else st3\<lparr>stats := (stats st3)\<lparr>failed := failed (stats st3) + 1\<rparr>\<rparr>)"
    unfolding process_archive_def st1_def t_def m_def ok_def Let_def
    by (simp add: case_prod_unfold)
  have pa2: "process_archive e a st =
      (let st3 = st1\<lparr>fs := disk', stats := (stats st1)\<lparr>cleaned_up := n\<rparr>,
                    calls := calls st1 @ [Extract a ok]\<rparr>
       in if ok then
            let st4 = st3\<lparr>stats := (stats st3)\<lparr>extracted := extracted (stats st3) + 1,
                         total_size := total_size (stats st3) + get_file_size (fs st1) a\<rparr>\<rparr>
            in if delete_after st4
               then st4\<lparr>pending_deletions := pending_deletions st4 @ [a]\<rparr> else st4
          else st3\<lparr>stats := (stats st3)\<lparr>failed := failed (stats st3) + 1\<rparr>\<rparr>)"
    unfolding pa fr(1) Let_def by simp
  show ?thesis
    apply (rule exI[of _ ok])
    apply (rule exI[of _ n])
    apply (rule exI[of _ "fs (process_archive e a st)"])
    using fr(2) unfolding pa2 Let_def st1_def
    by (auto split: if_splits)
qed

text \<open>The loop returns from a state in which a scan finds nothing.\<close>

lemma extract_rounds_final:
  assumes run: "extract_rounds e st = Some st'"
    and start: "I st"
    and step: "\<And>s. I s \<Longrightarrow> find_archives s \<noteq> [] \<Longrightarrow>
           I (fold (process_archive e) (find_archives s)
                (s\<lparr>calls := calls s @ [Found (find_archives s)]\<rparr>))"
  shows "\<exists>s. I s \<and> find_archives s = [] \<and> st' = s\<lparr>calls := calls s @ [Found []]\<rparr>"
proof -
  have "e0 = e \<longrightarrow> I s0 \<longrightarrow>
      (\<exists>s. I s \<and> find_archives s = [] \<and> r0 = s\<lparr>calls := calls s @ [Found []]\<rparr>)"
    if "extract_rounds e0 s0 = Some r0" for e0 s0 r0
  proof (rule extract_rounds.raw_induct[where P = "\<lambda>e0 s0 r0. e0 = e \<longrightarrow> I s0 \<longrightarrow>
      (\<exists>s. I s \<and> find_archives s = [] \<and> r0 = s\<lparr>calls := calls s @ [Found []]\<rparr>)", OF _ that])
    fix rounds e1 s1 r1
    assume IH: "\<And>e2 s2 r2. rounds e2 s2 = Some r2 \<Longrightarrow> e2 = e \<longrightarrow> I s2 \<longrightarrow>
        (\<exists>s. I s \<and> find_archives s = [] \<and> r2 = s\<lparr>calls := calls s @ [Found []]\<rparr>)"
      and body: "(let all_archives = find_archives s1;
                      st1 = s1\<lparr>calls := calls s1 @ [Found all_archives]\<rparr>
                  in if all_archives = [] then Some st1
                     else rounds e1 (fold (process_archive e1) all_archives st1)) = Some r1"
    show "e1 = e \<longrightarrow> I s1 \<longrightarrow>
        (\<exists>s. I s \<and> find_archives s = [] \<and> r1 = s\<lparr>calls := calls s @ [Found []]\<rparr>)"
    proof (intro impI)
      assume e1: "e1 = e" and inv: "I s1"
      show "\<exists>s. I s \<and> find_archives s = [] \<and> r1 = s\<lparr>calls := calls s @ [Found []]\<rparr>"
      proof (cases "find_archives s1 = []")
        case True
        then have "r1 = s1\<lparr>calls := calls s1 @ [Found []]\<rparr>"
          using body by (simp add: Let_def)
        then show ?thesis using inv True by blast
      next
        case False
        then have "rounds e (fold (process_archive e) (find_archives s1)
                    (s1\<lparr>calls := calls s1 @ [Found (find_archives s1)]\<rparr>)) = Some r1"
          using body e1 by (simp add: Let_def)
        from IH[OF this] step[OF inv False] show ?thesis by blast
      qed
    qed
  qed
  then show ?thesis using run start by blast
qed

lemma snoc_eq_split:
  "xs @ [y] = cs1 @ c # cs2 \<longleftrightarrow>
     (cs2 = [] \<and> cs1 = xs \<and> c = y) \<or> (\<exists>zs. cs2 = zs @ [y] \<and> xs = cs1 @ c # zs)"
  by (cases cs2 rule: rev_cases) auto

lemma add_precedes_extract_snoc:
  assumes "add_precedes_extract cs"
  shows "add_precedes_extract (cs @ [Found xs])"
    and "add_precedes_extract (cs @ [Unlink p r])"
    and "add_precedes_extract (cs @ [Add a, Extract a ok])"
proof -
  have two: "cs @ [Add a, Extract a ok] = (cs @ [Add a]) @ [Extract a ok]" by simp
  show "add_precedes_extract (cs @ [Found xs])" "add_precedes_extract (cs @ [Unlink p r])"
    using assms unfolding add_precedes_extract_def snoc_eq_split by auto
  show "add_precedes_extract (cs @ [Add a, Extract a ok])"
    using assms unfolding add_precedes_extract_def two snoc_eq_split by auto
qed

lemma scans_fresh_snoc:
  assumes "scans_fresh cs"
  shows "scans_fresh (cs @ [Unlink p r])"
    and "scans_fresh (cs @ [Add a, Extract a ok])"
    and "\<forall>p \<in> set xs. str_of p \<notin> str_of ` set (added cs) \<Longrightarrow> scans_fresh (cs @ [Found xs])"
proof -
  have two: "cs @ [Add a, Extract a ok] = (cs @ [Add a]) @ [Extract a ok]" by simp
  show "scans_fresh (cs @ [Unlink p r])"
    using assms unfolding scans_fresh_def snoc_eq_split by auto
  show "scans_fresh (cs @ [Add a, Extract a ok])"
    using assms unfolding scans_fresh_def two snoc_eq_split by auto
  show "scans_fresh (cs @ [Found xs])" if "\<forall>p \<in> set xs. str_of p \<notin> str_of ` set (added cs)"
    using assms that unfolding scans_fresh_def snoc_eq_split by auto
qed

lemma init_invariant: "run_invariant (init folder del hier disk)"
  by (simp add: run_invariant_def log_agrees_def add_precedes_extract_def scans_fresh_def init_def)

lemma process_archive_invariant:
  assumes "run_invariant st" "a \<notin> set (added (calls st))"
  shows "run_invariant (process_archive e a st)
         \<and> added (calls (process_archive e a st)) = added (calls st) @ [a]"
proof -
  obtain ok n disk' where eff:
    "calls (process_archive e a st) = calls st @ [Add a, Extract a ok]"
    "processed_files (process_archive e a st) = insert (str_of a) (processed_files st)"
    "extracted (stats (process_archive e a st)) = extracted (stats st) + (if ok then 1 else 0)"
    "failed (stats (process_archive e a st)) = failed (stats st) + (if ok then 0 else 1)"
    "cleaned_up (stats (process_archive e a st)) = n"
    "cleaned_up (stats st) \<le> n" "n \<le> cleaned_up (stats st) + (if ok then 0 else 1)"
    "pending_deletions (process_archive e a st)
         = pending_deletions st @ (if ok \<and> delete_after st then [a] else [])"
    "delete_after (process_archive e a st) = delete_after st"
    using process_archive_effect[of e a st] by blast
  have la: "log_agrees (process_archive e a st)"
    using assms eff unfolding run_invariant_def log_agrees_def
    by (auto simp: added_append outcomes_append unlinked_append)
  show ?thesis
    using assms(1) la eff(1) add_precedes_extract_snoc(3) scans_fresh_snoc(2)
    by (simp add: run_invariant_def added_append)
qed

lemma fold_process_invariant:
  "run_invariant st \<Longrightarrow> distinct as \<Longrightarrow> set as \<inter> set (added (calls st)) = {} \<Longrightarrow>
   run_invariant (fold (process_archive e) as st)
   \<and> added (calls (fold (process_archive e) as st)) = added (calls st) @ as"
proof (induction as arbitrary: st)
  case Nil
  then show ?case by simp
next
  case (Cons a as)
  from Cons.prems have fresh: "a \<notin> set (added (calls st))" by auto
  note step = process_archive_invariant[OF Cons.prems(1) fresh, of e]
  have "set as \<inter> set (added (calls (process_archive e a st))) = {}"
    using Cons.prems step by auto
  with Cons.IH[of "process_archive e a st"] step Cons.prems(2)
  show ?case by simp
qed

lemma distinct_find_archives: "distinct (find_archives st)"
  by (simp add: find_archives_def walk_def)

lemma round_invariant:
  assumes "run_invariant st"
  shows "run_invariant (fold (process_archive e) (find_archives st)
           (st\<lparr>calls := calls st @ [Found (find_archives st)]\<rparr>))"
proof -
  let ?st1 = "st\<lparr>calls := calls st @ [Found (find_archives st)]\<rparr>"
  have fresh: "\<forall>p \<in> set (find_archives st). str_of p \<notin> str_of ` set (added (calls st))"
    using assms by (auto simp: run_invariant_def log_agrees_def find_archives_def)
  have inv1: "run_invariant ?st1"
    using assms scans_fresh_snoc(3)[OF _ fresh] add_precedes_extract_snoc(1)
    by (simp add: run_invariant_def log_agrees_def added_append outcomes_append unlinked_append)
  have "set (find_archives st) \<inter> set (added (calls ?st1)) = {}"
    using fresh by (auto simp: added_append)
  from fold_process_invariant[OF inv1 distinct_find_archives this] show ?thesis by simp
qed

lemma extract_rounds_invariant:
  assumes "extract_rounds e st = Some st'" "run_invariant st"
  shows "run_invariant st' \<and> (\<exists>cs. calls st' = cs @ [Found []])"
proof -
  obtain s where s: "run_invariant s" "find_archives s = []"
      "st' = s\<lparr>calls := calls s @ [Found []]\<rparr>"
    using extract_rounds_final[OF assms(1), of run_invariant, OF assms(2)] round_invariant
    by blast
  have "run_invariant st'"
    using round_invariant[OF s(1), of e] s(2,3) by simp
  then show ?thesis using s(3) by auto
qed

text \<open>\<open>_delete_archives\<close>, one path and the whole list.\<close>

lemma map_of_filter_fst:
  "map_of (filter (\<lambda>e. fst e \<noteq> p) disk) q = (if q = p then None else map_of disk q)"
  by (induction disk) auto

lemma unlink_reads_node:
  "unlink disk q \<noteq> None \<longleftrightarrow>
     (\<exists>n. map_of disk q = Some n \<and> kind n \<noteq> Directory \<and> \<not> undeletable n)"
  by (auto simp: unlink_def split: option.splits)

lemma unlink_result:
  "unlink disk p = Some disk' \<Longrightarrow> map_of disk' q = (if q = p then None else map_of disk q)"
  by (auto simp: unlink_def map_of_filter_fst split: option.splits if_splits)

lemma delete_one_effect:
  "calls (delete_one p st) =
     calls st @ (if path_exists (fs st) p then [Unlink p (unlink (fs st) p \<noteq> None)] else [])
   \<and> (\<forall>q. map_of (fs (delete_one p st)) q =
        (if q = p \<and> unlink (fs st) p \<noteq> None then None else map_of (fs st) q))
   \<and> deleted (stats (delete_one p st)) =
       deleted (stats st) + (if unlink (fs st) p \<noteq> None then 1 else 0)
   \<and> extracted (stats (delete_one p st)) = extracted (stats st)
   \<and> failed (stats (delete_one p st)) = failed (stats st)
   \<and> cleaned_up (stats (delete_one p st)) = cleaned_up (stats st)
   \<and> processed_files (delete_one p st) = processed_files st
   \<and> pending_deletions (delete_one p st) = pending_deletions st"
proof (cases "unlink (fs st) p")
  case None
  then show ?thesis by (simp add: delete_one_def)
next
  case (Some disk')
  then have "path_exists (fs st) p"
    by (auto simp: path_exists_def unlink_def split: option.splits)
  then show ?thesis
    using Some unlink_result[OF Some] by (simp add: delete_one_def)
qed

lemma fold_delete_one_effect:
  "\<exists>us. calls (fold delete_one ps st) = calls st @ us
     \<and> (\<forall>c \<in> set us. \<exists>p. c = Unlink p (unlink (fs st) p \<noteq> None)
           \<and> p \<in> set ps \<and> path_exists (fs st) p)
     \<and> (\<forall>q. map_of (fs (fold delete_one ps st)) q =
          (if q \<in> set ps \<and> unlink (fs st) q \<noteq> None then None else map_of (fs st) q))
     \<and> deleted (stats (fold delete_one ps st)) =
         deleted (stats st) + int (card {p \<in> set ps. unlink (fs st) p \<noteq> None})
     \<and> extracted (stats (fold delete_one ps st)) = extracted (stats st)
     \<and> failed (stats (fold delete_one ps st)) = failed (stats st)
     \<and> cleaned_up (stats (fold delete_one ps st)) = cleaned_up (stats st)
     \<and> processed_files (fold delete_one ps st) = processed_files st
     \<and> pending_deletions (fold delete_one ps st) = pending_deletions st"
proof (induction ps arbitrary: st)
  case Nil
  then show ?case by simp
next
  case (Cons p ps)
  let ?s1 = "delete_one p st"
  note one = delete_one_effect[of p st]
  have node: "map_of (fs ?s1) q = (if q = p \<and> unlink (fs st) p \<noteq> None then None else map_of (fs st) q)" for q
    using one by blast
  have ok1: "unlink (fs ?s1) q \<noteq> None \<longleftrightarrow> unlink (fs st) q \<noteq> None \<and> q \<noteq> p" for q
    unfolding unlink_reads_node node by (auto simp: unlink_reads_node[symmetric])
  have ex1: "path_exists (fs ?s1) q \<Longrightarrow> path_exists (fs st) q" for q
    unfolding path_exists_def node by (auto split: if_splits)
  obtain us where us: "calls (fold delete_one ps ?s1) = calls ?s1 @ us"
    "\<forall>c \<in> set us. \<exists>q. c = Unlink q (unlink (fs ?s1) q \<noteq> None) \<and> q \<in> set ps \<and> path_exists (fs ?s1) q"
    "\<forall>q. map_of (fs (fold delete_one ps ?s1)) q =
          (if q \<in> set ps \<and> unlink (fs ?s1) q \<noteq> None then None else map_of (fs ?s1) q)"
    "deleted (stats (fold delete_one ps ?s1)) =
         deleted (stats ?s1) + int (card {q \<in> set ps. unlink (fs ?s1) q \<noteq> None})"
    "extracted (stats (fold delete_one ps ?s1)) = extracted (stats ?s1)"
    "failed (stats (fold delete_one ps ?s1)) = failed (stats ?s1)"
    "cleaned_up (stats (fold delete_one ps ?s1)) = cleaned_up (stats ?s1)"
    "processed_files (fold delete_one ps ?s1) = processed_files ?s1"
    "pending_deletions (fold delete_one ps ?s1) = pending_deletions ?s1"
    using Cons.IH[of ?s1] by blast
  let ?u0 = "if path_exists (fs st) p then [Unlink p (unlink (fs st) p \<noteq> None)] else []"
  have c: "calls (fold delete_one (p # ps) st) = calls st @ (?u0 @ us)"
    using us(1) one by simp
  have ev: "\<forall>c \<in> set (?u0 @ us). \<exists>q. c = Unlink q (unlink (fs st) q \<noteq> None)
           \<and> q \<in> set (p # ps) \<and> path_exists (fs st) q"
  proof
    fix c assume "c \<in> set (?u0 @ us)"
    then consider "c \<in> set ?u0" | "c \<in> set us" by auto
    then show "\<exists>q. c = Unlink q (unlink (fs st) q \<noteq> None) \<and> q \<in> set (p # ps) \<and> path_exists (fs st) q"
    proof cases
      case 1
      then show ?thesis by (auto split: if_splits)
    next
      case 2
      then obtain q where q: "c = Unlink q (unlink (fs ?s1) q \<noteq> None)" "q \<in> set ps"
          "path_exists (fs ?s1) q"
        using us(2) by blast
      have "q \<noteq> p \<or> unlink (fs st) p = None"
        using q(3) node[of q] by (auto simp: path_exists_def split: if_splits)
      then have "(unlink (fs ?s1) q \<noteq> None) = (unlink (fs st) q \<noteq> None)"
        using ok1[of q] by auto
      then show ?thesis using q ex1 by auto
    qed
  qed
  have m: "\<forall>q. map_of (fs (fold delete_one (p # ps) st)) q =
          (if q \<in> set (p # ps) \<and> unlink (fs st) q \<noteq> None then None else map_of (fs st) q)"
    using us(3) node ok1 by auto
  have set_eq: "{q \<in> set (p # ps). unlink (fs st) q \<noteq> None} =
      (if unlink (fs st) p \<noteq> None then {p} else {}) \<union> {q \<in> set ps. unlink (fs ?s1) q \<noteq> None}"
    using ok1 by auto
  have disj: "p \<notin> {q \<in> set ps. unlink (fs ?s1) q \<noteq> None}"
    using ok1 by auto
  have card_eq: "int (card {q \<in> set (p # ps). unlink (fs st) q \<noteq> None}) =
      (if unlink (fs st) p \<noteq> None then 1 else 0) + int (card {q \<in> set ps. unlink (fs ?s1) q \<noteq> None})"
    unfolding set_eq using disj by (auto simp: card_insert_if)
  have d: "deleted (stats (fold delete_one (p # ps) st)) =
         deleted (stats st) + int (card {q \<in> set (p # ps). unlink (fs st) q \<noteq> None})"
    using us(4) one card_eq by simp
  show ?case
    apply (rule exI[of _ "?u0 @ us"])
    using c ev m d us(5-9) one by simp
qed

lemma delete_archives_effect:
  "\<exists>us. calls (delete_archives st) = calls st @ us
     \<and> (\<forall>c \<in> set us. \<exists>p. c = Unlink p (unlink (fs st) p \<noteq> None)
           \<and> p \<in> set (pending_deletions st) \<and> path_exists (fs st) p \<and> delete_after st)
     \<and> (\<forall>q. map_of (fs (delete_archives st)) q =
          (if delete_after st \<and> q \<in> set (pending_deletions st) \<and> unlink (fs st) q \<noteq> None
           then None else map_of (fs st) q))
     \<and> deleted (stats (delete_archives st)) =
         deleted (stats st)
         + (if delete_after st
            then int (card {p \<in> set (pending_deletions st). unlink (fs st) p \<noteq> None}) else 0)
     \<and> extracted (stats (delete_archives st)) = extracted (stats st)
     \<and> failed (stats (delete_archives st)) = failed (stats st)
     \<and> cleaned_up (stats (delete_archives st)) = cleaned_up (stats st)
     \<and> processed_files (delete_archives st) = processed_files st"
proof (cases "\<not> delete_after st \<or> pending_deletions st = []")
  case True
  then show ?thesis by (auto simp: delete_archives_def)
next
  case False
  then have eq: "delete_archives st = fold delete_one (pending_deletions st) st"
    by (simp add: delete_archives_def)
  from fold_delete_one_effect[of "pending_deletions st" st] False
  show ?thesis unfolding eq by auto
qed

lemma fold_process_delete_after:
  "delete_after (fold (process_archive e) xs st) = delete_after st"
proof (induction xs arbitrary: st)
  case Nil
  then show ?case by simp
next
  case (Cons a xs)
  have "delete_after (process_archive e a st) = delete_after st"
    using process_archive_effect[of e a st] by blast
  then show ?case using Cons.IH[of "process_archive e a st"] by simp
qed

lemma only_unlinks:
  assumes "\<forall>c \<in> set us. \<exists>p r. c = Unlink p r"
  shows "added us = []" and "outcomes us = []"
    and "Add p \<notin> set us"
    and "Extract p r \<notin> set us"
proof -
  show "added us = []" using assms by (induction us rule: added.induct) auto
  show "outcomes us = []" using assms by (induction us rule: outcomes.induct) auto
  show "Add p \<notin> set us" using assms by auto
  show "Extract p r \<notin> set us" using assms by auto
qed

text \<open>A whole run: the loop, then the flush.\<close>

lemma extract_all_run:
  assumes "extract_all e (init folder del hier disk) = Some st'"
  shows "\<exists>s us. extract_rounds e (init folder del hier disk) = Some s
     \<and> st' = delete_archives s
     \<and> run_invariant s
     \<and> (\<exists>cs. calls s = cs @ [Found []])
     \<and> delete_after s = del
     \<and> calls st' = calls s @ us
     \<and> (\<forall>c \<in> set us. \<exists>p. c = Unlink p (unlink (fs s) p \<noteq> None)
           \<and> p \<in> set (pending_deletions s) \<and> path_exists (fs s) p \<and> delete_after s)"
proof -
  obtain s where s: "extract_rounds e (init folder del hier disk) = Some s" "st' = delete_archives s"
    using assms by (auto simp: extract_all_def)
  have inv: "run_invariant s" "\<exists>cs. calls s = cs @ [Found []]"
    using extract_rounds_invariant[OF s(1) init_invariant] by auto
  have "delete_after s = del"
  proof -
    have st: "delete_after (fold (process_archive e) (find_archives s0)
                (s0\<lparr>calls := calls s0 @ [Found (find_archives s0)]\<rparr>)) = del"
      if "delete_after s0 = del" for s0
      using that by (simp add: fold_process_delete_after)
    obtain s0 where "delete_after s0 = del" "s = s0\<lparr>calls := calls s0 @ [Found []]\<rparr>"
      using extract_rounds_final[OF s(1), of "\<lambda>x. delete_after x = del"] st
      by (fastforce simp: init_def)
    then show ?thesis by simp
  qed
  moreover obtain us where "calls (delete_archives s) = calls s @ us"
     "\<forall>c \<in> set us. \<exists>p. c = Unlink p (unlink (fs s) p \<noteq> None)
           \<and> p \<in> set (pending_deletions s) \<and> path_exists (fs s) p \<and> delete_after s"
    using delete_archives_effect[of s] by blast
  ultimately show ?thesis using s inv by blast
qed

text \<open>
  Claim C9. After a run of \<open>extract_all\<close> the sum of the counters \<open>extracted\<close> and
  \<open>failed\<close> is the number of archive paths that were added to the processed set during
  the run: \<open>extracted\<close> counts the paths whose extraction returned True, \<open>failed\<close> those
  whose extraction returned False, no path is in both, and together they are the paths
  added. The processed set holds the strings of these paths, so it has as many elements
  when no two of them share a string.
\<close>

theorem counters_cover_processed:
  assumes "extract_all e (init folder del hier disk) = Some st'"
  shows "extracted (stats st') + failed (stats st') = int (card {p. Add p \<in> set (calls st')})
     \<and> processed_files st' = str_of ` {p. Add p \<in> set (calls st')}
     \<and> extracted (stats st') = int (card {p. Extract p True \<in> set (calls st')})
     \<and> failed (stats st') = int (card {p. Extract p False \<in> set (calls st')})
     \<and> {p. Extract p True \<in> set (calls st')} \<inter> {p. Extract p False \<in> set (calls st')} = {}
     \<and> {p. Extract p True \<in> set (calls st')} \<union> {p. Extract p False \<in> set (calls st')}
         = {p. Add p \<in> set (calls st')}
     \<and> (inj_on str_of {p. Add p \<in> set (calls st')} \<longrightarrow>
          extracted (stats st') + failed (stats st') = int (card (processed_files st')))"
proof -
  obtain s us where run: "st' = delete_archives s" "run_invariant s" "calls st' = calls s @ us"
    "\<forall>c \<in> set us. \<exists>p. c = Unlink p (unlink (fs s) p \<noteq> None)
           \<and> p \<in> set (pending_deletions s) \<and> path_exists (fs s) p \<and> delete_after s"
    using extract_all_run[OF assms] by blast
  have us: "\<forall>c \<in> set us. \<exists>p r. c = Unlink p r" using run(4) by blast
  have same: "extracted (stats st') = extracted (stats s)" "failed (stats st') = failed (stats s)"
    "processed_files st' = processed_files s"
    using delete_archives_effect[of s] run(1) by auto
  have la: "log_agrees s" using run(2) by (simp add: run_invariant_def)
  let ?os = "outcomes (calls s)"
  have d: "distinct (map fst ?os)" "map fst ?os = added (calls s)"
    using la by (auto simp: log_agrees_def)
  have A: "{p. Add p \<in> set (calls st')} = set (added (calls s))"
    by (simp add: run(3) only_unlinks(3)[OF us] set_added)
  have T: "{p. Extract p True \<in> set (calls st')} = set (map fst (filter snd ?os))"
    by (auto simp: run(3) only_unlinks(4)[OF us] set_outcomes image_iff)
  have F: "{p. Extract p False \<in> set (calls st')} = set (map fst (filter (\<lambda>x. \<not> snd x) ?os))"
    by (auto simp: run(3) only_unlinks(4)[OF us] set_outcomes image_iff)
  have dT: "distinct (map fst (filter snd ?os))" and dF: "distinct (map fst (filter (\<lambda>x. \<not> snd x) ?os))"
    using d(1) by (simp_all add: distinct_map_filter)
  have cT: "extracted (stats st') = int (card {p. Extract p True \<in> set (calls st')})"
    using la unfolding T same distinct_card[OF dT] by (simp add: log_agrees_def)
  have cF: "failed (stats st') = int (card {p. Extract p False \<in> set (calls st')})"
    using la unfolding F same distinct_card[OF dF] by (simp add: log_agrees_def)
  have disj: "{p. Extract p True \<in> set (calls st')} \<inter> {p. Extract p False \<in> set (calls st')} = {}"
  proof -
    have "False" if "(p, True) \<in> set ?os" "(p, False) \<in> set ?os" for p
      using eq_key_imp_eq_value[OF d(1) that] by simp
    then show ?thesis
      by (auto simp: run(3) only_unlinks(4)[OF us] set_outcomes)
  qed
  have un: "{p. Extract p True \<in> set (calls st')} \<union> {p. Extract p False \<in> set (calls st')}
         = {p. Add p \<in> set (calls st')}"
  proof -
    have "set (map fst (filter snd ?os)) \<union> set (map fst (filter (\<lambda>x. \<not> snd x) ?os)) = set (map fst ?os)"
      by auto
    then show ?thesis unfolding T F A d(2) .
  qed
  have fin: "finite {p. Extract p True \<in> set (calls st')}" "finite {p. Extract p False \<in> set (calls st')}"
    unfolding T F by simp_all
  have total: "extracted (stats st') + failed (stats st') = int (card {p. Add p \<in> set (calls st')})"
    unfolding un[symmetric] cT cF using card_Un_disjoint[OF fin disj] by simp
  have P: "processed_files st' = str_of ` {p. Add p \<in> set (calls st')}"
    using la unfolding A same by (simp add: log_agrees_def)
  have inj: "extracted (stats st') + failed (stats st') = int (card (processed_files st'))"
    if "inj_on str_of {p. Add p \<in> set (calls st')}"
    unfolding P total using card_image[OF that] by simp
  show ?thesis by (intro conjI impI total P cT cF disj un inj)
qed

lemma demo_run_final: "extract_all demo_env (init [''src''] True True demo_disk) = Some demo_final"
  by (simp add: demo_run demo_final_def)

theorem counters_cover_processed_witness:
  "extract_all demo_env (init [''src''] True True demo_disk) = Some demo_final
   \<and> extracted (stats demo_final) + failed (stats demo_final)
       = int (card {p. Add p \<in> set (calls demo_final)})
   \<and> extracted (stats demo_final) = 1 \<and> failed (stats demo_final) = 1
   \<and> processed_files demo_final = {''src/b.rar'', ''src/a.zip''}"
  using counters_cover_processed[OF demo_run_final] demo_run_final
  by (simp add: demo_final_def demo_state_def)

lemma process_archive_grows: "processed_files s \<subseteq> processed_files (process_archive e a s)"
  using process_archive_effect[of e a s] by auto

lemma fold_process_grows: "processed_files s \<subseteq> processed_files (fold (process_archive e) xs s)"
proof (induction xs arbitrary: s)
  case Nil
  then show ?case by simp
next
  case (Cons a xs)
  show ?case
    using process_archive_grows[of s e a] Cons.IH[of "process_archive e a s"] by auto
qed

lemma extract_rounds_grows:
  assumes "extract_rounds e s = Some s'"
  shows "processed_files s \<subseteq> processed_files s'"
proof -
  have step: "processed_files s \<subseteq> processed_files (fold (process_archive e) (find_archives x)
                (x\<lparr>calls := calls x @ [Found (find_archives x)]\<rparr>))"
    if "processed_files s \<subseteq> processed_files x" for x
    using that fold_process_grows[of "x\<lparr>calls := calls x @ [Found (find_archives x)]\<rparr>" e "find_archives x"]
    by auto
  obtain x where "processed_files s \<subseteq> processed_files x" "s' = x\<lparr>calls := calls x @ [Found []]\<rparr>"
    using extract_rounds_final[OF assms, of "\<lambda>x. processed_files s \<subseteq> processed_files x"] step
    by blast
  then show ?thesis by simp
qed

lemma processed_not_found: "str_of p \<in> processed_files s \<Longrightarrow> p \<notin> set (find_archives s)"
  by (simp add: find_archives_def)

text \<open>
  Claim C2. In every run of \<open>extract_all\<close>: a call of \<open>_extract_with_cleanup\<close> on a path
  comes after the \<open>processed_files.add\<close> of that path; the processed set of a state is
  within the processed set after one more archive, after the rest of the loop and after
  the flush; a scan never collects a path whose string is in the processed set, so no scan
  of the run lists a path whose string was added before it; and the paths on which
  \<open>_extract_with_cleanup\<close> is called are all different, whether the calls returned True
  or False.
\<close>

theorem processed_before_extraction:
  assumes "extract_all e (init folder del hier disk) = Some st'"
  shows "(\<forall>cs1 p r cs2. calls st' = cs1 @ Extract p r # cs2 \<longrightarrow> Add p \<in> set cs1)
     \<and> (\<forall>a s. processed_files s \<subseteq> processed_files (process_archive e a s))
     \<and> (\<forall>s s'. extract_rounds e s = Some s' \<longrightarrow> processed_files s \<subseteq> processed_files s')
     \<and> (\<forall>s. processed_files (delete_archives s) = processed_files s)
     \<and> (\<forall>s p. str_of p \<in> processed_files s \<longrightarrow> p \<notin> set (find_archives s))
     \<and> (\<forall>cs1 xs cs2. calls st' = cs1 @ Found xs # cs2 \<longrightarrow>
          (\<forall>p \<in> set xs. str_of p \<notin> str_of ` {q. Add q \<in> set cs1}))
     \<and> distinct (map fst (outcomes (calls st')))
     \<and> set (map fst (outcomes (calls st'))) = {p. \<exists>r. Extract p r \<in> set (calls st')}"
proof -
  obtain s us where run: "st' = delete_archives s" "run_invariant s" "calls st' = calls s @ us"
    "\<forall>c \<in> set us. \<exists>p. c = Unlink p (unlink (fs s) p \<noteq> None)
           \<and> p \<in> set (pending_deletions s) \<and> path_exists (fs s) p \<and> delete_after s"
    using extract_all_run[OF assms] by blast
  have us: "\<forall>c \<in> set us. \<exists>p r. c = Unlink p r" using run(4) by blast
  have keep: "add_precedes_extract (cs @ us) \<and> scans_fresh (cs @ us)"
    if "add_precedes_extract cs" "scans_fresh cs" "\<forall>c \<in> set us. \<exists>p r. c = Unlink p r" for cs us
    using that
  proof (induction us rule: rev_induct)
    case Nil
    then show ?case by simp
  next
    case (snoc u us)
    then obtain p r where u: "u = Unlink p r" by auto
    from snoc have "add_precedes_extract (cs @ us) \<and> scans_fresh (cs @ us)" by simp
    then show ?case
      using add_precedes_extract_snoc(2)[of "cs @ us" p r] scans_fresh_snoc(1)[of "cs @ us" p r] u
      by simp
  qed
  have fin: "add_precedes_extract (calls st')" "scans_fresh (calls st')"
    using keep[OF _ _ us, of "calls s"] run(2,3) by (simp_all add: run_invariant_def)
  have a: "\<forall>cs1 p r cs2. calls st' = cs1 @ Extract p r # cs2 \<longrightarrow> Add p \<in> set cs1"
    using fin(1) unfolding add_precedes_extract_def .
  have c: "\<forall>cs1 xs cs2. calls st' = cs1 @ Found xs # cs2 \<longrightarrow>
          (\<forall>p \<in> set xs. str_of p \<notin> str_of ` {q. Add q \<in> set cs1})"
    using fin(2) unfolding scans_fresh_def set_added .
  have "outcomes (calls st') = outcomes (calls s)"
    by (simp add: run(3) outcomes_append only_unlinks(2)[OF us])
  then have d: "distinct (map fst (outcomes (calls st')))"
    using run(2) by (simp add: run_invariant_def log_agrees_def)
  have f: "set (map fst (outcomes (calls st'))) = {p. \<exists>r. Extract p r \<in> set (calls st')}"
    by (auto simp: set_outcomes image_iff)
  have g: "\<forall>s. processed_files (delete_archives s) = processed_files s"
    using delete_archives_effect by blast
  show ?thesis
    by (intro conjI allI impI a c d f g[rule_format] process_archive_grows
        extract_rounds_grows processed_not_found)
qed

theorem processed_before_extraction_witness:
  "extract_all demo_env (init [''src''] True True demo_disk) = Some demo_final
   \<and> calls demo_final =
       [Found [[''src'', ''a.zip''], [''src'', ''b.rar'']], Add [''src'', ''a.zip''],
        Extract [''src'', ''a.zip''] True, Add [''src'', ''b.rar'']]
       @ Extract [''src'', ''b.rar''] False # [Found [], Unlink [''src'', ''a.zip''] True]
   \<and> Add [''src'', ''b.rar'']
       \<in> set [Found [[''src'', ''a.zip''], [''src'', ''b.rar'']], Add [''src'', ''a.zip''],
               Extract [''src'', ''a.zip''] True, Add [''src'', ''b.rar'']]
   \<and> distinct (map fst (outcomes (calls demo_final)))"
proof -
  note facts = processed_before_extraction[OF demo_run_final]
  have split: "calls demo_final =
       [Found [[''src'', ''a.zip''], [''src'', ''b.rar'']], Add [''src'', ''a.zip''],
        Extract [''src'', ''a.zip''] True, Add [''src'', ''b.rar'']]
       @ Extract [''src'', ''b.rar''] False # [Found [], Unlink [''src'', ''a.zip''] True]"
    by (simp add: demo_final_def demo_state_def)
  note first = facts[THEN conjunct1]
  from first[rule_format, OF split]
  have before: "Add [''src'', ''b.rar'']
       \<in> set [Found [[''src'', ''a.zip''], [''src'', ''b.rar'']], Add [''src'', ''a.zip''],
               Extract [''src'', ''a.zip''] True, Add [''src'', ''b.rar'']]" .
  have "distinct (map fst (outcomes (calls demo_final)))"
    by (rule facts[THEN conjunct2, THEN conjunct2, THEN conjunct2, THEN conjunct2,
          THEN conjunct2, THEN conjunct2, THEN conjunct1])
  then show ?thesis by (intro conjI demo_run_final split before)
qed

lemma fold_process_deleted:
  "deleted (stats (fold (process_archive e) xs st)) = deleted (stats st)"
proof (induction xs arbitrary: st)
  case Nil
  then show ?case by simp
next
  case (Cons a xs)
  have "deleted (stats (process_archive e a st)) = deleted (stats st)"
    using process_archive_effect[of e a st] by blast
  then show ?case using Cons.IH[of "process_archive e a st"] by simp
qed

lemma extract_rounds_deleted:
  assumes "extract_rounds e (init folder del hier disk) = Some s"
  shows "deleted (stats s) = 0"
proof -
  obtain x where "deleted (stats x) = 0" "s = x\<lparr>calls := calls x @ [Found []]\<rparr>"
    using extract_rounds_final[OF assms, of "\<lambda>x. deleted (stats x) = 0"]
    by (fastforce simp: init_def fold_process_deleted)
  then show ?thesis by simp
qed

text \<open>
  Claim C3. With deletion enabled, the log of a run is the log of the loop, which ends
  with the scan that found nothing and holds no \<open>unlink\<close>, followed by the calls of
  \<open>_delete_archives\<close>, which are \<open>unlink\<close>s of pending paths that exist. The pending
  paths are the paths whose extraction returned True, so every \<open>unlink\<close> is on such a
  path, and a path whose extraction returned False gets no \<open>unlink\<close> and keeps its node.
  After the flush a path is gone exactly when it was pending and its \<open>unlink\<close> went
  through, whatever happened to the other pending paths (missing, or not removable), and
  \<open>deleted\<close> counts these paths.
\<close>

theorem deferred_deletion:
  assumes "extract_all e (init folder True hier disk) = Some st'"
  shows "\<exists>s us cs. extract_rounds e (init folder True hier disk) = Some s
     \<and> calls s = cs @ [Found []]
     \<and> unlinked (calls s) = []
     \<and> calls st' = calls s @ us
     \<and> (\<forall>c \<in> set us. \<exists>p. c = Unlink p (unlink (fs s) p \<noteq> None)
           \<and> p \<in> set (pending_deletions s) \<and> path_exists (fs s) p)
     \<and> set (pending_deletions s) = {p. Extract p True \<in> set (calls s)}
     \<and> (\<forall>p r. Unlink p r \<in> set (calls st') \<longrightarrow> Extract p True \<in> set (calls st'))
     \<and> (\<forall>p. Extract p False \<in> set (calls st') \<longrightarrow>
           (\<forall>r. Unlink p r \<notin> set (calls st')) \<and> map_of (fs st') p = map_of (fs s) p)
     \<and> (\<forall>q. map_of (fs st') q =
           (if q \<in> set (pending_deletions s) \<and> unlink (fs s) q \<noteq> None
            then None else map_of (fs s) q))
     \<and> deleted (stats st')
         = int (card {p \<in> set (pending_deletions s). unlink (fs s) p \<noteq> None})"
proof -
  obtain s us where run: "extract_rounds e (init folder True hier disk) = Some s"
    "st' = delete_archives s" "run_invariant s" "\<exists>cs. calls s = cs @ [Found []]"
    "delete_after s = True" "calls st' = calls s @ us"
    "\<forall>c \<in> set us. \<exists>p. c = Unlink p (unlink (fs s) p \<noteq> None)
           \<and> p \<in> set (pending_deletions s) \<and> path_exists (fs s) p \<and> delete_after s"
    using extract_all_run[OF assms] by blast
  obtain cs where cs: "calls s = cs @ [Found []]" using run(4) by blast
  have la: "log_agrees s" using run(3) by (simp add: run_invariant_def)
  let ?os = "outcomes (calls s)"
  have nol: "unlinked (calls s) = []" using la by (simp add: log_agrees_def)
  have no_unlink: "Unlink p r \<notin> set (calls s)" for p r
    using set_unlinked[of "calls s"] nol by auto
  have pend: "pending_deletions s = map fst (filter snd ?os)"
    using la run(5) by (simp add: log_agrees_def)
  have pset: "set (pending_deletions s) = {p. Extract p True \<in> set (calls s)}"
    unfolding pend by (auto simp: set_outcomes image_iff)
  have ev: "\<forall>c \<in> set us. \<exists>p. c = Unlink p (unlink (fs s) p \<noteq> None)
           \<and> p \<in> set (pending_deletions s) \<and> path_exists (fs s) p"
    using run(7) by blast
  have us: "\<forall>c \<in> set us. \<exists>p r. c = Unlink p r" using run(7) by blast
  have only: "\<forall>p r. Unlink p r \<in> set (calls st') \<longrightarrow> Extract p True \<in> set (calls st')"
  proof (intro allI impI)
    fix p r assume "Unlink p r \<in> set (calls st')"
    then have "Unlink p r \<in> set us" using run(6) no_unlink by auto
    then have "p \<in> set (pending_deletions s)" using ev by auto
    then show "Extract p True \<in> set (calls st')" using pset run(6) by auto
  qed
  have eff: "\<forall>q. map_of (fs st') q =
           (if q \<in> set (pending_deletions s) \<and> unlink (fs s) q \<noteq> None
            then None else map_of (fs s) q)"
    "deleted (stats st') = deleted (stats s)
        + int (card {p \<in> set (pending_deletions s). unlink (fs s) p \<noteq> None})"
    using delete_archives_effect[of s] run(2,5) by auto
  have dist: "distinct (map fst ?os)" using la by (simp add: log_agrees_def)
  have failed_kept: "\<forall>p. Extract p False \<in> set (calls st') \<longrightarrow>
           (\<forall>r. Unlink p r \<notin> set (calls st')) \<and> map_of (fs st') p = map_of (fs s) p"
  proof (intro allI impI)
    fix p assume "Extract p False \<in> set (calls st')"
    then have "Extract p False \<in> set (calls s)"
      using run(6) only_unlinks(4)[OF us] by auto
    then have f: "(p, False) \<in> set ?os" by (simp add: set_outcomes)
    have np: "p \<notin> set (pending_deletions s)"
    proof
      assume "p \<in> set (pending_deletions s)"
      then have "(p, True) \<in> set ?os" by (simp add: pset set_outcomes)
      from eq_key_imp_eq_value[OF dist this f] show False by simp
    qed
    have "Unlink p r \<notin> set (calls st')" for r
    proof
      assume "Unlink p r \<in> set (calls st')"
      then have "Unlink p r \<in> set us" using run(6) no_unlink by auto
      then show False using ev np by auto
    qed
    then show "(\<forall>r. Unlink p r \<notin> set (calls st')) \<and> map_of (fs st') p = map_of (fs s) p"
      using eff(1) np by simp
  qed
  have del: "deleted (stats st')
         = int (card {p \<in> set (pending_deletions s). unlink (fs s) p \<noteq> None})"
    using eff(2) extract_rounds_deleted[OF run(1)] by simp
  show ?thesis
    apply (rule exI[of _ s])
    apply (rule exI[of _ us])
    apply (rule exI[of _ cs])
    by (intro conjI run(1) cs nol run(6) ev pset only failed_kept eff(1) del)
qed

theorem deferred_deletion_witness:
  "extract_all demo_env (init [''src''] True True demo_disk) = Some demo_final
   \<and> unlinked (calls demo_final) = [[''src'', ''a.zip'']]
   \<and> Extract [''src'', ''a.zip''] True \<in> set (calls demo_final)
   \<and> Extract [''src'', ''b.rar''] False \<in> set (calls demo_final)
   \<and> map_of (fs demo_final) [''src'', ''a.zip''] = None
   \<and> map_of (fs demo_final) [''src'', ''b.rar''] = Some (plain_file 5)
   \<and> deleted (stats demo_final) = 1"
  using deferred_deletion[OF demo_run_final] demo_run_final
  by (simp add: demo_final_def demo_state_def)







text \<open>An archive whose library is missing.\<close>

lemma run_method_missing:
  "(m = Extract_rar \<and> \<not> HAS_RAR e) \<or> (m = Extract_7z \<and> \<not> HAS_7Z e) \<Longrightarrow>
   run_method e m a t d = (False, d)"
  by (auto simp: run_method_def extract_rar_def extract_7z_def)

lemma extract_with_cleanup_method_fails:
  assumes "\<And>d. fst (run_method e m a t d) = False"
  shows "fst (extract_with_cleanup e st a t m) = False"
proof (cases "snapshot (fs st) t")
  case None
  then show ?thesis by (simp add: extract_with_cleanup_unlistable)
next
  case (Some listed)
  obtain success disk2 where run: "run_method e m a t (ensure_dir (fs st) t) = (success, disk2)"
    by (cases "run_method e m a t (ensure_dir (fs st) t)") auto
  then have "\<not> success" using assms[of "ensure_dir (fs st) t"] by simp
  then show ?thesis by (simp add: extract_with_cleanup_listed[OF Some run])
qed

lemma suffix_last: "suffix xs s \<Longrightarrow> xs \<noteq> [] \<Longrightarrow> last s = last xs"
  by (auto simp: suffix_def)

lemma get_extract_method_rar:
  "endswith (lower (str_of a)) ''.rar'' \<Longrightarrow> get_extract_method a = Extract_rar"
  using suffix_last[of "''.rar''" "lower (str_of a)"] suffix_last[of "''.zip''" "lower (str_of a)"]
  by (auto simp: get_extract_method_def endswith_def Let_def)

lemma get_extract_method_7z:
  "endswith (lower (str_of a)) ''.7z'' \<Longrightarrow> get_extract_method a = Extract_7z"
  using suffix_last[of "''.rar''" "lower (str_of a)"] suffix_last[of "''.zip''" "lower (str_of a)"]
    suffix_last[of "''.7z''" "lower (str_of a)"]
  by (auto simp: get_extract_method_def endswith_def Let_def)

lemma process_archive_returned:
  "calls (process_archive e a st) =
     calls st @ [Add a, Extract a
       (fst (extract_with_cleanup e
              (st\<lparr>processed_files := insert (str_of a) (processed_files st),
                   calls := calls st @ [Add a]\<rparr>)
              a
              (get_extraction_path
                (st\<lparr>processed_files := insert (str_of a) (processed_files st),
                     calls := calls st @ [Add a]\<rparr>) a)
              (get_extract_method a)))]"
proof -
  let ?st1 = "st\<lparr>processed_files := insert (str_of a) (processed_files st),
                   calls := calls st @ [Add a]\<rparr>"
  let ?r = "extract_with_cleanup e ?st1 a (get_extraction_path ?st1 a) (get_extract_method a)"
  obtain disk' n where fr: "snd ?r = ?st1\<lparr>fs := disk', stats := (stats ?st1)\<lparr>cleaned_up := n\<rparr>\<rparr>"
    using extract_with_cleanup_frame[of e ?st1 a "get_extraction_path ?st1 a" "get_extract_method a"]
    by blast
  have "calls (snd ?r) = calls st @ [Add a]" unfolding fr by simp
  then show ?thesis
    unfolding process_archive_def Let_def by (simp add: case_prod_unfold)
qed

text \<open>
  Claim C5, as the code has it. For a rar or 7z archive met while its library is missing,
  the extraction method returns False, as it does on any failure, and leaves the file
  system as it is; \<open>_extract_with_cleanup\<close> returns False for the archive, and the driver
  logs a failed extraction, adds one to \<open>failed\<close>, leaves \<open>extracted\<close> as it is and does
  not put the archive on the list of pending deletions.
\<close>

theorem missing_library_counts_as_failure:
  assumes "(endswith (lower (str_of a)) ''.rar'' \<and> \<not> HAS_RAR e)
           \<or> (endswith (lower (str_of a)) ''.7z'' \<and> \<not> HAS_7Z e)"
  shows "run_method e (get_extract_method a) a t d = (False, d)
     \<and> fst (extract_with_cleanup e st a t (get_extract_method a)) = False
     \<and> calls (process_archive e a st) = calls st @ [Add a, Extract a False]
     \<and> failed (stats (process_archive e a st)) = failed (stats st) + 1
     \<and> extracted (stats (process_archive e a st)) = extracted (stats st)
     \<and> pending_deletions (process_archive e a st) = pending_deletions st"
proof -
  have m: "(get_extract_method a = Extract_rar \<and> \<not> HAS_RAR e)
           \<or> (get_extract_method a = Extract_7z \<and> \<not> HAS_7Z e)"
    using assms get_extract_method_rar get_extract_method_7z by blast
  have r: "run_method e (get_extract_method a) a t' d' = (False, d')" for t' d'
    using run_method_missing[OF m] .
  have f: "fst (extract_with_cleanup e st' a t' (get_extract_method a)) = False" for st' t'
    by (rule extract_with_cleanup_method_fails) (simp add: r)
  have c: "calls (process_archive e a st) = calls st @ [Add a, Extract a False]"
    unfolding process_archive_returned f by simp
  obtain ok where eff:
    "calls (process_archive e a st) = calls st @ [Add a, Extract a ok]"
    "extracted (stats (process_archive e a st)) = extracted (stats st) + (if ok then 1 else 0)"
    "failed (stats (process_archive e a st)) = failed (stats st) + (if ok then 0 else 1)"
    "pending_deletions (process_archive e a st)
         = pending_deletions st @ (if ok \<and> delete_after st then [a] else [])"
    using process_archive_effect[of e a st] by blast
  have "\<not> ok" using eff(1) c by simp
  then show ?thesis using r f c eff by simp
qed

text \<open>
  The rar library of \<open>demo_env\<close> would write a file into the target; it is missing, and
  nothing is written.
\<close>

theorem missing_library_counts_as_failure_witness:
  "endswith (lower (str_of [''src'', ''b.rar''])) ''.rar'' \<and> \<not> HAS_RAR demo_env
   \<and> run_method demo_env (get_extract_method [''src'', ''b.rar'']) [''src'', ''b.rar'']
        [''src'', ''b''] demo_disk = (False, demo_disk)
   \<and> fst (extract_with_cleanup demo_env (init [''src''] True True demo_disk)
          [''src'', ''b.rar''] [''src'', ''b''] (get_extract_method [''src'', ''b.rar''])) = False
   \<and> calls (process_archive demo_env [''src'', ''b.rar''] (init [''src''] True True demo_disk))
       = [Add [''src'', ''b.rar''], Extract [''src'', ''b.rar''] False]
   \<and> failed (stats (process_archive demo_env [''src'', ''b.rar''] (init [''src''] True True demo_disk))) = 1
   \<and> extracted (stats (process_archive demo_env [''src'', ''b.rar''] (init [''src''] True True demo_disk))) = 0
   \<and> pending_deletions (process_archive demo_env [''src'', ''b.rar'']
        (init [''src''] True True demo_disk)) = []"
proof -
  have h: "endswith (lower (str_of [''src'', ''b.rar''])) ''.rar''" "\<not> HAS_RAR demo_env"
    by (simp_all add: endswith_def lower_def lower_char_def str_of_def suffix_to_prefix demo_env_def)
  then have "(endswith (lower (str_of [''src'', ''b.rar''])) ''.rar'' \<and> \<not> HAS_RAR demo_env)
           \<or> (endswith (lower (str_of [''src'', ''b.rar''])) ''.7z'' \<and> \<not> HAS_7Z demo_env)"
    by simp
  note claim = missing_library_counts_as_failure[OF this, of "[''src'', ''b'']" demo_disk
      "init [''src''] True True demo_disk"]
  have i: "calls (init [''src''] True True demo_disk) = []"
    "failed (stats (init [''src''] True True demo_disk)) = 0"
    "extracted (stats (init [''src''] True True demo_disk)) = 0"
    "pending_deletions (init [''src''] True True demo_disk) = []"
    by (simp_all add: init_def)
  show ?thesis
    using claim unfolding i by (intro conjI h) simp_all
qed

text \<open>
  The claim as it is written fails on the example run: the rar archive, whose library is
  missing, is one of the two archives, its extraction is logged as returning False, and it
  is the one archive counted in \<open>failed\<close>.
\<close>

theorem missing_rar_is_counted_in_failed:
  "extract_all demo_env (init [''src''] True True demo_disk) = Some demo_final
   \<and> HAS_RAR demo_env = False
   \<and> get_extract_method [''src'', ''b.rar''] = Extract_rar
   \<and> outcomes (calls demo_final) = [([''src'', ''a.zip''], True), ([''src'', ''b.rar''], False)]
   \<and> failed (stats demo_final) = 1"
  using demo_run_final
  by (simp add: demo_final_def demo_state_def demo_env_def get_extract_method_def endswith_def
      lower_def lower_char_def str_of_def suffix_to_prefix)

section \<open>Rollback\<close>


lemma set_entries: "set (entries disk t) = {q \<in> fst ` set disk. parent q = t \<and> q \<noteq> t}"
  by (auto simp: entries_def)


lemma entry_exists: "q \<in> set (entries disk t) \<Longrightarrow> path_exists disk q"
  by (auto simp: set_entries path_exists_def map_of_eq_None_iff)


















end
